theory Spec2Isabelle
  imports Complex_Main
begin

section \<open>Grids\<close>

text \<open>
  A two-dimensional numpy array is a shape together with its cells, addressed by
  (row, column). Every read in the modelled functions is guarded by a bounds check or by
  a \<open>range\<close> over the shape, so the cells outside the shape are never consulted.

  Elevation samples are floating-point values (\<open>fvalue\<close> below): a finite number, an
  infinity, or the no-data marker NaN; the flow-direction resolver is modelled with the
  rounding of each of its float operations. Accumulation values and map coordinates are
  reals, and the arithmetic on them is exact.
\<close>

record 'a ndarray =
  nrows :: nat
  ncols :: nat
  cell :: "nat \<times> nat \<Rightarrow> 'a"

definition of_rows :: "'a list list \<Rightarrow> 'a ndarray" where
  "of_rows xss =
     \<lparr>nrows = length xss,
      ncols = (case xss of [] \<Rightarrow> 0 | xs # _ \<Rightarrow> length xs),
      cell = (\<lambda>(i, j). xss ! i ! j)\<rparr>"

definition in_bounds :: "nat \<Rightarrow> nat \<Rightarrow> int \<Rightarrow> int \<Rightarrow> bool" where
  \<comment> \<open>\<open>0 <= ni < rows and 0 <= nj < cols\<close>\<close>
  "in_bounds rows cols ni nj \<longleftrightarrow> 0 \<le> ni \<and> ni < int rows \<and> 0 \<le> nj \<and> nj < int cols"

section \<open>Floating-point numbers\<close>

text \<open>
  IEEE 754 binary floating point, as numpy and Python compute with it. A value is a finite
  real, plus or minus infinity, or NaN; the two zeros are not told apart (the modelled code
  only compares slopes and never divides by a zero it has computed). A format is given by
  its precision \<open>prec\<close> (in bits, hidden bit included) and its exponent range; \<open>binary32\<close>
  is numpy's \<open>float32\<close> and \<open>binary64\<close> is \<open>float64\<close>, the Python \<open>float\<close>.

  \<open>rnd fmt x\<close> rounds the real \<open>x\<close> to the nearest multiple of the unit in the last place of
  its binade, ties to the even multiple, with gradual underflow below \<open>2 ^ emin\<close>;
  \<open>ieee_round\<close> adds the overflow to infinity. Every operation is the exact operation on the
  reals followed by this rounding.
\<close>

datatype fvalue = Finite real | PosInf | NegInf | NaN

record float_format =
  prec :: nat
  emin :: int
  emax :: int

definition binary32 :: float_format where
  "binary32 = \<lparr>prec = 24, emin = -126, emax = 127\<rparr>"

definition binary64 :: float_format where
  "binary64 = \<lparr>prec = 53, emin = -1022, emax = 1023\<rparr>"

definition round_even :: "real \<Rightarrow> int" where
  "round_even x =
     (if x - of_int \<lfloor>x\<rfloor> < 1 / 2 then \<lfloor>x\<rfloor>
      else if 1 / 2 < x - of_int \<lfloor>x\<rfloor> then \<lfloor>x\<rfloor> + 1
      else if even \<lfloor>x\<rfloor> then \<lfloor>x\<rfloor> else \<lfloor>x\<rfloor> + 1)"

definition ulp_exp :: "float_format \<Rightarrow> real \<Rightarrow> int" where
  "ulp_exp fmt x = max \<lfloor>log 2 \<bar>x\<bar>\<rfloor> (emin fmt) - int (prec fmt) + 1"

definition rnd :: "float_format \<Rightarrow> real \<Rightarrow> real" where
  "rnd fmt x =
     (if x = 0 then 0
      else of_int (round_even (x / 2 powi ulp_exp fmt x)) * 2 powi ulp_exp fmt x)"

definition ieee_round :: "float_format \<Rightarrow> real \<Rightarrow> fvalue" where
  "ieee_round fmt x =
     (if 2 powi (emax fmt + 1) \<le> \<bar>rnd fmt x\<bar> then (if 0 < x then PosInf else NegInf)
      else Finite (rnd fmt x))"

text \<open>Subtraction, division, square root and the comparison \<open>>\<close> (false on NaN).\<close>

fun fsub :: "float_format \<Rightarrow> fvalue \<Rightarrow> fvalue \<Rightarrow> fvalue" where
  "fsub fmt (Finite x) (Finite y) = ieee_round fmt (x - y)"
| "fsub fmt NaN b = NaN"
| "fsub fmt a NaN = NaN"
| "fsub fmt PosInf PosInf = NaN"
| "fsub fmt NegInf NegInf = NaN"
| "fsub fmt PosInf b = PosInf"
| "fsub fmt NegInf b = NegInf"
| "fsub fmt (Finite x) PosInf = NegInf"
| "fsub fmt (Finite x) NegInf = PosInf"

fun fdiv :: "float_format \<Rightarrow> fvalue \<Rightarrow> fvalue \<Rightarrow> fvalue" where
  "fdiv fmt (Finite x) (Finite y) =
     (if y \<noteq> 0 then ieee_round fmt (x / y)
      else if x = 0 then NaN else if 0 < x then PosInf else NegInf)"
| "fdiv fmt NaN b = NaN"
| "fdiv fmt a NaN = NaN"
| "fdiv fmt (Finite x) b = Finite 0"
| "fdiv fmt PosInf (Finite y) = (if 0 \<le> y then PosInf else NegInf)"
| "fdiv fmt NegInf (Finite y) = (if 0 \<le> y then NegInf else PosInf)"
| "fdiv fmt a b = NaN"

definition fsqrt :: "float_format \<Rightarrow> real \<Rightarrow> fvalue" where
  "fsqrt fmt x = ieee_round fmt (sqrt x)"

fun fgt :: "fvalue \<Rightarrow> fvalue \<Rightarrow> bool" where
  "fgt NaN b = False"
| "fgt a NaN = False"
| "fgt (Finite x) (Finite y) = (y < x)"
| "fgt PosInf PosInf = False"
| "fgt PosInf b = True"
| "fgt a PosInf = False"
| "fgt NegInf b = False"
| "fgt a NegInf = True"

text \<open>Rounding to float64 of a real known to stay in the range of the format.\<close>

definition f64 :: "real \<Rightarrow> real" where
  "f64 x = rnd binary64 x"

section \<open>Flow direction (scripts/process\_dem\_flow.py, calculate\_flow\_direction\_d8)\<close>

text \<open>
  The resolver, for an elevation array of floating-point dtype \<open>fmt\<close> (the dtype of the
  raster band, \<open>float32\<close> or \<open>float64\<close>). \<open>center_elev - neighbor_elev\<close> is a subtraction of two
  numpy scalars of that dtype, rounded in it; \<open>np.sqrt(dr**2 + dc**2)\<close> is a \<open>float64\<close>, and
  so is the quotient \<open>slope\<close>. \<open>max_slope\<close> starts at \<open>-np.inf\<close>, and \<open>slope > max_slope\<close> is
  the float comparison.
\<close>

definition neighbors :: "(int \<times> int \<times> nat) list" where
  "neighbors =
     [(-1, 1, 128), (0, 1, 1), (1, 1, 2), (1, 0, 4),
      (1, -1, 8), (0, -1, 16), (-1, -1, 32), (-1, 0, 64)]"

fun neighbor_step ::
  "float_format \<Rightarrow> fvalue ndarray \<Rightarrow> nat \<Rightarrow> nat \<Rightarrow> fvalue \<Rightarrow> fvalue \<times> nat \<Rightarrow> int \<times> int \<times> nat
     \<Rightarrow> fvalue \<times> nat" where
  "neighbor_step fmt dem i j center_elev (max_slope, flow_direction) (dr, dc, direction_code) =
     (let ni = int i + dr; nj = int j + dc in
      if in_bounds (nrows dem) (ncols dem) ni nj then
        (let neighbor_elev = cell dem (nat ni, nat nj) in
         if neighbor_elev \<noteq> NaN then
           (let distance = fsqrt binary64 (real_of_int (dr\<^sup>2 + dc\<^sup>2));
                slope = fdiv binary64 (fsub fmt center_elev neighbor_elev) distance
            in if fgt slope max_slope then (slope, direction_code)
               else (max_slope, flow_direction))
         else (max_slope, flow_direction))
      else (max_slope, flow_direction))"

definition cell_direction :: "float_format \<Rightarrow> fvalue ndarray \<Rightarrow> nat \<Rightarrow> nat \<Rightarrow> fvalue \<Rightarrow> nat" where
  "cell_direction fmt dem i j center_elev =
     snd (foldl (neighbor_step fmt dem i j center_elev) (NegInf, 0) neighbors)"

definition d8_cell ::
  "float_format \<Rightarrow> fvalue ndarray \<Rightarrow> nat \<Rightarrow> (nat \<times> nat \<Rightarrow> nat) \<Rightarrow> nat \<Rightarrow> (nat \<times> nat \<Rightarrow> nat)" where
  "d8_cell fmt dem i flow_dir j =
     (let center_elev = cell dem (i, j) in
      if center_elev = NaN then flow_dir
      else flow_dir((i, j) := cell_direction fmt dem i j center_elev))"

definition d8_row ::
  "float_format \<Rightarrow> fvalue ndarray \<Rightarrow> (nat \<times> nat \<Rightarrow> nat) \<Rightarrow> nat \<Rightarrow> (nat \<times> nat \<Rightarrow> nat)" where
  "d8_row fmt dem flow_dir i = foldl (d8_cell fmt dem i) flow_dir [1 ..< ncols dem - 1]"

definition calculate_flow_direction_d8 :: "float_format \<Rightarrow> fvalue ndarray \<Rightarrow> nat ndarray" where
  "calculate_flow_direction_d8 fmt dem =
     \<lparr>nrows = nrows dem, ncols = ncols dem,
      cell = foldl (d8_row fmt dem) (\<lambda>_. 0) [1 ..< nrows dem - 1]\<rparr>"

text \<open>The neighbour a step looks at, and the slope the step computes for it.\<close>

definition valid_neighbor :: "fvalue ndarray \<Rightarrow> nat \<Rightarrow> nat \<Rightarrow> int \<times> int \<times> nat \<Rightarrow> bool" where
  "valid_neighbor dem i j n =
     (case n of (dr, dc, code) \<Rightarrow>
        in_bounds (nrows dem) (ncols dem) (int i + dr) (int j + dc) \<and>
        cell dem (nat (int i + dr), nat (int j + dc)) \<noteq> NaN)"

definition slope_to :: "float_format \<Rightarrow> fvalue ndarray \<Rightarrow> nat \<Rightarrow> nat \<Rightarrow> int \<times> int \<times> nat \<Rightarrow> fvalue" where
  "slope_to fmt dem i j n =
     (case n of (dr, dc, code) \<Rightarrow>
        fdiv binary64
          (fsub fmt (cell dem (i, j)) (cell dem (nat (int i + dr), nat (int j + dc))))
          (fsqrt binary64 (real_of_int (dr\<^sup>2 + dc\<^sup>2))))"

definition interior :: "'a ndarray \<Rightarrow> nat \<Rightarrow> nat \<Rightarrow> bool" where
  "interior a i j \<longleftrightarrow> 1 \<le> i \<and> i + 1 < nrows a \<and> 1 \<le> j \<and> j + 1 < ncols a"

definition dir_to_offset :: "nat \<rightharpoonup> int \<times> int" where
  "dir_to_offset =
     map_of [(128, (-1, 1)), (1, (0, 1)), (2, (1, 1)), (4, (1, 0)),
             (8, (1, -1)), (16, (0, -1)), (32, (-1, -1)), (64, (-1, 0))]"

definition first_steepest ::
  "float_format \<Rightarrow> fvalue ndarray \<Rightarrow> nat \<Rightarrow> nat \<Rightarrow> (int \<times> int \<times> nat) list \<Rightarrow> nat \<Rightarrow> bool" where
  \<comment> \<open>the \<open>k\<close>-th entry of \<open>ns\<close> is a valid neighbour of maximal computed slope, and the first such\<close>
  "first_steepest fmt dem i j ns k \<longleftrightarrow>
     k < length ns \<and> valid_neighbor dem i j (ns ! k) \<and>
     fgt (slope_to fmt dem i j (ns ! k)) NegInf \<and>
     (\<forall>k' < length ns. valid_neighbor dem i j (ns ! k') \<longrightarrow>
        \<not> fgt (slope_to fmt dem i j (ns ! k')) (slope_to fmt dem i j (ns ! k)) \<and>
        (k' < k \<longrightarrow> slope_to fmt dem i j (ns ! k') = NaN \<or>
                   fgt (slope_to fmt dem i j (ns ! k)) (slope_to fmt dem i j (ns ! k'))))"

text \<open>
  The slope as the specification words it: centre minus neighbour over the Euclidean
  distance, in the reals (\<open>real_of\<close> reads a finite sample).
\<close>

definition real_of :: "fvalue \<Rightarrow> real" where
  "real_of v = (case v of Finite r \<Rightarrow> r | _ \<Rightarrow> 0)"

definition spec_slope :: "fvalue ndarray \<Rightarrow> nat \<Rightarrow> nat \<Rightarrow> int \<times> int \<times> nat \<Rightarrow> real" where
  "spec_slope dem i j n =
     (case n of (dr, dc, code) \<Rightarrow>
        (real_of (cell dem (i, j)) - real_of (cell dem (nat (int i + dr), nat (int j + dc))))
          / sqrt (real_of_int (dr\<^sup>2 + dc\<^sup>2)))"

definition d8_codes :: "nat set" where
  "d8_codes = {0, 1, 2, 4, 8, 16, 32, 64, 128}"

definition border :: "'a ndarray \<Rightarrow> nat \<Rightarrow> nat \<Rightarrow> bool" where
  "border a i j \<longleftrightarrow>
     i < nrows a \<and> j < ncols a \<and> (i = 0 \<or> i = nrows a - 1 \<or> j = 0 \<or> j = ncols a - 1)"

definition flat3 :: "fvalue ndarray" where
  "flat3 = of_rows [[Finite 5, Finite 5, Finite 5], [Finite 5, Finite 5, Finite 5],
                    [Finite 5, Finite 5, Finite 5]]"

definition dell3 :: "fvalue ndarray" where
  "dell3 = of_rows [[NaN, NaN, NaN], [NaN, Finite 5, Finite 4], [NaN, Finite 3, NaN]]"

text \<open>
  A \<open>float64\<close> grid whose interior cell has elevation 0, an E neighbour at \<open>-q\<close> with
  \<open>q = 1592262918131443 / 2 ^ 51\<close>, the float64 quotient of 1 by the float64 square root of
  2, and an SE neighbour at \<open>-1\<close>.
\<close>

definition tie3 :: "fvalue ndarray" where
  "tie3 = of_rows [[NaN, NaN, NaN],
                   [NaN, Finite 0, Finite (- (1592262918131443 / 2251799813685248))],
                   [NaN, NaN, Finite (- 1)]]"

section \<open>Flow accumulation (archive/process\_dem\_flow.py, calculate\_flow\_accumulation)\<close>

text \<open>
  The state of the propagation loop: the accumulation array, the array of cells marked as
  processed, and the flag \<open>changed\<close> of the current pass. Accumulation values are sums of
  the initial ones, so they are modelled as exact reals.
\<close>

record acc_state =
  flow_acc :: "nat \<times> nat \<Rightarrow> real"
  processed :: "nat \<times> nat \<Rightarrow> bool"
  changed :: bool

definition visit_cell :: "nat ndarray \<Rightarrow> acc_state \<Rightarrow> nat \<times> nat \<Rightarrow> acc_state" where
  \<comment> \<open>the body of the two inner loops at cell \<open>(i, j)\<close>\<close>
  "visit_cell flow_dir s ij =
     (case ij of (i, j) \<Rightarrow>
        if cell flow_dir (i, j) = 0 \<or> processed s (i, j) then s
        else
          (case dir_to_offset (cell flow_dir (i, j)) of
             None \<Rightarrow> s
           | Some (dr, dc) \<Rightarrow>
               (let ni = int i + dr; nj = int j + dc in
                if in_bounds (nrows flow_dir) (ncols flow_dir) ni nj then
                  (if flow_acc s (nat ni, nat nj) > 1000000
                   then s\<lparr>processed := (processed s)((i, j) := True)\<rparr>
                   else
                     (let old_acc = flow_acc s (nat ni, nat nj);
                          acc' = (flow_acc s)((nat ni, nat nj) :=
                                    flow_acc s (nat ni, nat nj) + flow_acc s (i, j))
                      in s\<lparr>flow_acc := acc',
                            changed := (if \<bar>acc' (nat ni, nat nj) - old_acc\<bar> > 1 / 10 then True
                                        else changed s)\<rparr>))
                else s)))"

definition grid_cells :: "nat \<Rightarrow> nat \<Rightarrow> (nat \<times> nat) list" where
  \<comment> \<open>\<open>for i in range(rows): for j in range(cols)\<close>: the cells in row-major order\<close>
  "grid_cells rows cols = List.product [0 ..< rows] [0 ..< cols]"

definition full_pass :: "nat ndarray \<Rightarrow> acc_state \<Rightarrow> acc_state" where
  "full_pass flow_dir s =
     foldl (visit_cell flow_dir) (s\<lparr>changed := False\<rparr>)
       (grid_cells (nrows flow_dir) (ncols flow_dir))"

datatype message = Converged nat | NotConverged nat

text \<open>
  The loop \<open>for iteration in range(max_iterations)\<close>, over the list of the remaining values
  of \<open>iteration\<close>. It returns the final state, the lines printed, and the number of passes
  it made (this count is not a variable of the source; it is kept to state how many passes
  run).
\<close>

fun iterate ::
  "nat ndarray \<Rightarrow> nat \<Rightarrow> nat list \<Rightarrow> acc_state \<Rightarrow> acc_state \<times> message list \<times> nat" where
  "iterate flow_dir max_iterations [] s = (s, [], 0)"
| "iterate flow_dir max_iterations (iteration # rest) s =
     (let s' = full_pass flow_dir s in
      if \<not> changed s' then (s', [Converged (iteration + 1)], 1)
      else
        (case iterate flow_dir max_iterations rest s' of
           (s'', out, n) \<Rightarrow>
             ((s'',
               (if iteration = max_iterations - 1 then [NotConverged max_iterations] else []) @ out,
               Suc n))))"

definition max_iterations :: nat where
  "max_iterations = 50"

definition initial_state :: acc_state where
  \<comment> \<open>\<open>np.ones\<close> and \<open>np.zeros(dtype=bool)\<close>\<close>
  "initial_state = \<lparr>flow_acc = (\<lambda>_. 1), processed = (\<lambda>_. False), changed = False\<rparr>"

definition accumulation_loop :: "nat ndarray \<Rightarrow> acc_state \<times> message list \<times> nat" where
  "accumulation_loop flow_dir =
     iterate flow_dir max_iterations [0 ..< max_iterations] initial_state"

definition clip :: "real \<Rightarrow> real \<Rightarrow> real \<Rightarrow> real" where
  "clip x lo hi = min (max x lo) hi"

definition clipped :: "nat ndarray \<Rightarrow> acc_state \<Rightarrow> real ndarray" where
  "clipped flow_dir s =
     \<lparr>nrows = nrows flow_dir, ncols = ncols flow_dir,
      cell = (\<lambda>c. clip (flow_acc s c) 0 1000000)\<rparr>"

definition calculate_flow_accumulation :: "nat ndarray \<Rightarrow> real ndarray" where
  \<comment> \<open>the final \<open>astype(np.float32)\<close> is left out: the clipped values are sums of ones
      capped at 1000000, which that conversion does not change\<close>
  "calculate_flow_accumulation flow_dir = clipped flow_dir (fst (accumulation_loop flow_dir))"

definition printed :: "nat ndarray \<Rightarrow> message list" where
  \<comment> \<open>what a call of \<open>calculate_flow_accumulation\<close> prints\<close>
  "printed flow_dir = fst (snd (accumulation_loop flow_dir))"

definition passes_made :: "nat ndarray \<Rightarrow> nat" where
  "passes_made flow_dir = snd (snd (accumulation_loop flow_dir))"

definition state_after :: "nat ndarray \<Rightarrow> nat \<Rightarrow> acc_state" where
  \<comment> \<open>the state after \<open>k\<close> full passes from the initial arrays\<close>
  "state_after flow_dir k = (full_pass flow_dir ^^ k) initial_state"

definition downstream :: "nat ndarray \<Rightarrow> nat \<times> nat \<Rightarrow> (nat \<times> nat) option" where
  \<comment> \<open>the cell a cell pushes into: its code is non-zero and in the table, the target in bounds\<close>
  "downstream flow_dir ij =
     (case ij of (i, j) \<Rightarrow>
        if cell flow_dir (i, j) = 0 then None
        else
          (case dir_to_offset (cell flow_dir (i, j)) of
             None \<Rightarrow> None
           | Some (dr, dc) \<Rightarrow>
               if in_bounds (nrows flow_dir) (ncols flow_dir) (int i + dr) (int j + dc)
               then Some (nat (int i + dr), nat (int j + dc)) else None))"

definition routes_into :: "nat ndarray \<Rightarrow> nat \<times> nat \<Rightarrow> nat \<times> nat \<Rightarrow> bool" where
  "routes_into flow_dir a b \<longleftrightarrow>
     fst a < nrows flow_dir \<and> snd a < ncols flow_dir \<and> downstream flow_dir a = Some b"

definition pos :: "acc_state \<Rightarrow> bool" where
  \<comment> \<open>every accumulation value is at least the initial 1\<close>
  "pos s \<longleftrightarrow> (\<forall>x. 1 \<le> flow_acc s x)"

definition guarded :: "nat ndarray \<Rightarrow> acc_state \<Rightarrow> bool" where
  \<comment> \<open>a cell is marked as processed only when the cell it pushes into exceeds the threshold\<close>
  "guarded fd s \<longleftrightarrow>
     (\<forall>c d. processed s c \<longrightarrow> downstream fd c = Some d \<longrightarrow> flow_acc s d > 1000000)"

definition pair2 :: "nat ndarray" where
  \<comment> \<open>one row of two cells: the left one drains east, the right one west\<close>
  "pair2 = of_rows [[1, 16]]"

definition chain2 :: "nat ndarray" where
  \<comment> \<open>one row of two cells: the left one drains east into a sink\<close>
  "chain2 = of_rows [[1, 0]]"

definition sink1 :: "nat ndarray" where
  "sink1 = of_rows [[0]]"

section \<open>Flow vectors (archive/process\_dem\_flow.py, extract\_flow\_vectors)\<close>

text \<open>
  \<open>rio_xy\<close> is rasterio's \<open>transform.xy\<close>, a library function: it is a parameter of the
  model, together with the transform it is applied to. The accumulation array is read at
  the cells of the direction array; a read outside its own shape raises \<open>IndexError\<close>.
  The parameter \<open>dem_shape\<close> is not used by the source.
\<close>

datatype py_error = ZeroDivisionError | ValueError | IndexError

record flow_line =
  line_from :: "real \<times> real"
  line_to :: "real \<times> real"
  accumulation :: real
  direction :: nat

definition extract_cell ::
  "('t \<Rightarrow> int \<Rightarrow> int \<Rightarrow> real \<times> real) \<Rightarrow> 't \<Rightarrow> nat ndarray \<Rightarrow> real ndarray \<Rightarrow> real
     \<Rightarrow> flow_line list \<Rightarrow> nat \<times> nat \<Rightarrow> py_error + flow_line list" where
  "extract_cell rio_xy transform flow_dir acc_field threshold flow_lines ij =
     (case ij of (i, j) \<Rightarrow>
        if cell flow_dir (i, j) = 0 then Inr flow_lines
        else if \<not> (i < nrows acc_field \<and> j < ncols acc_field) then Inl IndexError
        else if cell acc_field (i, j) < threshold then Inr flow_lines
        else
          (let xy = rio_xy transform (int i) (int j) in
           case dir_to_offset (cell flow_dir (i, j)) of
             None \<Rightarrow> Inr flow_lines
           | Some (dr, dc) \<Rightarrow>
               (let ni = int i + dr; nj = int j + dc in
                if in_bounds (nrows flow_dir) (ncols flow_dir) ni nj then
                  (let nxy = rio_xy transform ni nj in
                   Inr (flow_lines @
                     [\<lparr>line_from = xy, line_to = nxy,
                       accumulation = cell acc_field (i, j),
                       direction = cell flow_dir (i, j)\<rparr>]))
                else Inr flow_lines)))"

fun extract_loop ::
  "('a list \<Rightarrow> 'c \<Rightarrow> py_error + 'a list) \<Rightarrow> 'a list \<Rightarrow> 'c list \<Rightarrow> py_error + 'a list" where
  "extract_loop step flow_lines [] = Inr flow_lines"
| "extract_loop step flow_lines (c # cs) =
     (case step flow_lines c of
        Inl e \<Rightarrow> Inl e
      | Inr flow_lines' \<Rightarrow> extract_loop step flow_lines' cs)"

definition extract_flow_vectors ::
  "('t \<Rightarrow> int \<Rightarrow> int \<Rightarrow> real \<times> real) \<Rightarrow> nat ndarray \<Rightarrow> real ndarray \<Rightarrow> 't \<Rightarrow> nat \<times> nat \<Rightarrow> real
     \<Rightarrow> py_error + flow_line list" where
  "extract_flow_vectors rio_xy flow_dir acc_field transform dem_shape threshold =
     extract_loop (extract_cell rio_xy transform flow_dir acc_field threshold) []
       (grid_cells (nrows flow_dir) (ncols flow_dir))"

definition flow_vector_of ::
  "('t \<Rightarrow> int \<Rightarrow> int \<Rightarrow> real \<times> real) \<Rightarrow> nat ndarray \<Rightarrow> real ndarray \<Rightarrow> 't \<Rightarrow> nat \<times> nat \<Rightarrow> flow_line" where
  "flow_vector_of rio_xy flow_dir acc_field transform c =
     \<lparr>line_from = rio_xy transform (int (fst c)) (int (snd c)),
      line_to = (case the (downstream flow_dir c) of (ni, nj) \<Rightarrow> rio_xy transform (int ni) (int nj)),
      accumulation = cell acc_field c,
      direction = cell flow_dir c\<rparr>"

definition emits :: "nat ndarray \<Rightarrow> real ndarray \<Rightarrow> real \<Rightarrow> nat \<times> nat \<Rightarrow> bool" where
  "emits flow_dir acc_field threshold c \<longleftrightarrow> cell flow_dir c \<noteq> 0 \<and> cell acc_field c \<ge> threshold"

definition acc57 :: "real ndarray" where
  "acc57 = of_rows [[5, 7]]"

definition cell_xy :: "unit \<Rightarrow> int \<Rightarrow> int \<Rightarrow> real \<times> real" where
  "cell_xy t i j = (real_of_int j + 1 / 2, - real_of_int i - 1 / 2)"

section \<open>Even sampling (archive/process\_dem\_flow.py, sample\_evenly)\<close>

text \<open>
  \<open>linspace_int start stop num\<close> is numpy's \<open>np.linspace(start, stop, num, dtype=int)\<close> for
  \<open>num \<ge> 0\<close>, a library function, computed in \<open>float64\<close> as numpy does:
  \<open>div = num - 1\<close>, \<open>delta = stop - start\<close>, \<open>step = delta / div\<close>, the samples
  \<open>y = arange(0, num) * step + start\<close> (\<open>arange(0, num) / div * delta + start\<close> when the step
  is zero, \<open>arange(0, num) * delta + start\<close> when \<open>div\<close> is zero), the last sample overwritten
  with \<open>stop\<close> when \<open>num > 1\<close>, and every sample rounded towards minus infinity by the
  integer dtype. \<open>linspace_sample\<close> is the sample of index \<open>k\<close> before that last rounding;
  \<open>divisor\<close> is the source's \<open>div\<close>. The magnitudes stay far below the overflow threshold,
  so each operation is followed by \<open>f64\<close>. A negative \<open>num\<close> makes numpy raise \<open>ValueError\<close>.
\<close>

definition linspace_sample :: "real \<Rightarrow> real \<Rightarrow> nat \<Rightarrow> nat \<Rightarrow> real" where
  "linspace_sample start stop num k =
     (let divisor = num - 1;
          delta = f64 (stop - start);
          step = f64 (delta / f64 (real divisor));
          y = f64 (real k);
          y = (if 0 < divisor then
                 (if step = 0 then f64 (f64 (y / f64 (real divisor)) * delta) else f64 (y * step))
               else f64 (y * delta));
          y = f64 (y + start)
      in if 1 < num \<and> k = num - 1 then stop else y)"

definition linspace_int :: "int \<Rightarrow> int \<Rightarrow> nat \<Rightarrow> int list" where
  "linspace_int start stop num =
     map (\<lambda>k. \<lfloor>linspace_sample (f64 (of_int start)) (f64 (of_int stop)) num k\<rfloor>) [0 ..< num]"

text \<open>\<open>items[i]\<close> on a Python list, and the list comprehension over the indices.\<close>

definition get_item :: "'a list \<Rightarrow> int \<Rightarrow> py_error + 'a" where
  "get_item xs i =
     (if 0 \<le> i \<and> i < int (length xs) then Inr (xs ! nat i)
      else if - int (length xs) \<le> i \<and> i < 0 then Inr (xs ! nat (i + int (length xs)))
      else Inl IndexError)"

fun get_items :: "'a list \<Rightarrow> int list \<Rightarrow> py_error + 'a list" where
  "get_items xs [] = Inr []"
| "get_items xs (i # indices) =
     (case get_item xs i of
        Inl e \<Rightarrow> Inl e
      | Inr v \<Rightarrow> (case get_items xs indices of Inl e \<Rightarrow> Inl e | Inr vs \<Rightarrow> Inr (v # vs)))"

definition sample_evenly :: "'a list \<Rightarrow> int \<Rightarrow> py_error + 'a list" where
  "sample_evenly items max_count =
     (if int (length items) \<le> max_count then Inr items
      else if max_count < 0 then Inl ValueError
      else get_items items (linspace_int 0 (int (length items) - 1) (nat max_count)))"

text \<open>
  The sampler as the specification words it: the evenly spaced positions are rounded to
  the nearest index.
\<close>

definition spec_sample_evenly :: "'a list \<Rightarrow> nat \<Rightarrow> 'a list" where
  "spec_sample_evenly items max_count =
     (if length items \<le> max_count then items
      else map (\<lambda>k. items ! nat (round (real k * real (length items - 1) / real (max_count - 1))))
             [0 ..< max_count])"

section \<open>Coordinate normalization (archive/process\_dem\_flow.py, main)\<close>

text \<open>
  The normalization step of \<open>main\<close>: the bounds give \<open>minx\<close>, \<open>miny\<close>, \<open>width\<close> and
  \<open>height\<close>; every flow line, then every start point, is rewritten with its normalized
  coordinates, the original ones being kept.

  The coordinates of the primitives come from rasterio's \<open>xy\<close>, a library function which,
  depending on its version, returns Python floats or numpy \<open>float64\<close> scalars; the bounds are
  Python floats. The difference \<open>x - minx\<close> has the type of \<open>x\<close>, and that type decides what
  a division by zero does: on a Python float it raises \<open>ZeroDivisionError\<close>, on a numpy
  scalar it returns an infinity, or NaN for \<open>0 / 0\<close>, with a warning only. The kind of
  scalar is therefore a parameter of the model. A normalized coordinate is a float value;
  the finite quotients are computed exactly.
\<close>

datatype scalar_kind = PythonFloat | NumpyFloat64

record bounding_box =
  bounds_left :: real
  bounds_bottom :: real
  bounds_right :: real
  bounds_top :: real

record start_point =
  position :: "real \<times> real"
  weight :: real

record norm_flow_line =
  from_x_norm :: fvalue
  to_x_norm :: fvalue
  from_y_norm :: fvalue
  to_y_norm :: fvalue
  from_orig :: "real \<times> real"
  to_orig :: "real \<times> real"
  line_accumulation :: real
  line_direction :: nat

record norm_start_point =
  position_orig :: "real \<times> real"
  position_norm :: "fvalue \<times> fvalue"
  point_weight :: real

definition np_div :: "real \<Rightarrow> real \<Rightarrow> fvalue" where
  "np_div x y =
     (if y \<noteq> 0 then Finite (x / y)
      else if x = 0 then NaN else if 0 < x then PosInf else NegInf)"

definition float_div :: "scalar_kind \<Rightarrow> real \<Rightarrow> real \<Rightarrow> py_error + fvalue" where
  "float_div kind x y =
     (if y = 0 \<and> kind = PythonFloat then Inl ZeroDivisionError else Inr (np_div x y))"

fun one_minus :: "fvalue \<Rightarrow> fvalue" where
  "one_minus (Finite q) = Finite (1 - q)"
| "one_minus PosInf = NegInf"
| "one_minus NegInf = PosInf"
| "one_minus NaN = NaN"

definition bind_err :: "py_error + 'a \<Rightarrow> ('a \<Rightarrow> py_error + 'b) \<Rightarrow> py_error + 'b" where
  "bind_err r f = (case r of Inl e \<Rightarrow> Inl e | Inr v \<Rightarrow> f v)"

fun for_each :: "('a \<Rightarrow> py_error + 'b) \<Rightarrow> 'a list \<Rightarrow> py_error + 'b list" where
  "for_each f [] = Inr []"
| "for_each f (x # xs) =
     bind_err (f x) (\<lambda>y. bind_err (for_each f xs) (\<lambda>ys. Inr (y # ys)))"

definition normalize_flow_line ::
  "scalar_kind \<Rightarrow> real \<Rightarrow> real \<Rightarrow> real \<Rightarrow> real \<Rightarrow> flow_line \<Rightarrow> py_error + norm_flow_line" where
  "normalize_flow_line kind minx miny width height fl =
     bind_err (float_div kind (fst (line_from fl) - minx) width) (\<lambda>fxn.
     bind_err (float_div kind (fst (line_to fl) - minx) width) (\<lambda>txn.
     bind_err (float_div kind (snd (line_from fl) - miny) height) (\<lambda>fq.
     bind_err (float_div kind (snd (line_to fl) - miny) height) (\<lambda>tq.
       Inr \<lparr>from_x_norm = fxn, to_x_norm = txn,
            from_y_norm = one_minus fq, to_y_norm = one_minus tq,
            from_orig = line_from fl, to_orig = line_to fl,
            line_accumulation = accumulation fl, line_direction = direction fl\<rparr>))))"

definition normalize_start_point ::
  "scalar_kind \<Rightarrow> real \<Rightarrow> real \<Rightarrow> real \<Rightarrow> real \<Rightarrow> start_point \<Rightarrow> py_error + norm_start_point" where
  "normalize_start_point kind minx miny width height p =
     bind_err (float_div kind (fst (position p) - minx) width) (\<lambda>x_norm.
     bind_err (float_div kind (snd (position p) - miny) height) (\<lambda>q.
       Inr \<lparr>position_orig = position p, position_norm = (x_norm, one_minus q),
            point_weight = weight p\<rparr>))"

definition normalize_primitives ::
  "scalar_kind \<Rightarrow> bounding_box \<Rightarrow> flow_line list \<Rightarrow> start_point list
     \<Rightarrow> py_error + norm_flow_line list \<times> norm_start_point list" where
  "normalize_primitives kind bounds flow_lines start_points =
     (let minx = bounds_left bounds; miny = bounds_bottom bounds;
          maxx = bounds_right bounds; maxy = bounds_top bounds;
          width = maxx - minx; height = maxy - miny
      in bind_err (for_each (normalize_flow_line kind minx miny width height) flow_lines) (\<lambda>fls.
         bind_err (for_each (normalize_start_point kind minx miny width height) start_points)
           (\<lambda>pts. Inr (fls, pts))))"

text \<open>
  The formulas of the normalization, with numpy's value for a zero divisor, and the
  records they fill.
\<close>

definition x_norm :: "bounding_box \<Rightarrow> real \<Rightarrow> fvalue" where
  "x_norm b x = np_div (x - bounds_left b) (bounds_right b - bounds_left b)"

definition y_norm :: "bounding_box \<Rightarrow> real \<Rightarrow> fvalue" where
  "y_norm b y = one_minus (np_div (y - bounds_bottom b) (bounds_top b - bounds_bottom b))"

definition line_norm :: "bounding_box \<Rightarrow> flow_line \<Rightarrow> norm_flow_line" where
  "line_norm b fl =
     \<lparr>from_x_norm = x_norm b (fst (line_from fl)), to_x_norm = x_norm b (fst (line_to fl)),
      from_y_norm = y_norm b (snd (line_from fl)), to_y_norm = y_norm b (snd (line_to fl)),
      from_orig = line_from fl, to_orig = line_to fl,
      line_accumulation = accumulation fl, line_direction = direction fl\<rparr>"

definition point_norm :: "bounding_box \<Rightarrow> start_point \<Rightarrow> norm_start_point" where
  "point_norm b p =
     \<lparr>position_orig = position p,
      position_norm = (x_norm b (fst (position p)), y_norm b (snd (position p))),
      point_weight = weight p\<rparr>"

fun is_finite :: "fvalue \<Rightarrow> bool" where
  "is_finite (Finite r) = True"
| "is_finite v = False"

definition degenerate :: "bounding_box \<Rightarrow> bool" where
  "degenerate b \<longleftrightarrow> bounds_right b - bounds_left b = 0 \<or> bounds_top b - bounds_bottom b = 0"

definition line_box :: bounding_box where
  "line_box = \<lparr>bounds_left = 0, bounds_bottom = 0, bounds_right = 0, bounds_top = 10\<rparr>"

definition box_4_2 :: bounding_box where
  "box_4_2 = \<lparr>bounds_left = 0, bounds_bottom = 0, bounds_right = 4, bounds_top = 2\<rparr>"

section \<open>Floating-point numbers: rounding\<close>

text \<open>
  Rounding is monotone, exact on the integers below \<open>2 ^ prec\<close>, and its relative error on
  the normal range is at most \<open>2 ^ - prec\<close>.
\<close>

lemma round_even_bounds: "x - 1 / 2 \<le> of_int (round_even x)" "of_int (round_even x) \<le> x + 1 / 2"
  unfolding round_even_def by (auto simp: ) linarith+

lemma round_even_of_int [simp]: "round_even (of_int k) = k"
  by (simp add: round_even_def)

lemma round_even_two_power [simp]: "round_even (2 ^ n) = 2 ^ n"
  using round_even_of_int [of "2 ^ n"] by simp

lemma round_even_mono:
  assumes "x \<le> y"
  shows "round_even x \<le> round_even y"
proof (cases "\<lfloor>x\<rfloor> = \<lfloor>y\<rfloor>")
  case True
  then show ?thesis using assms unfolding round_even_def by (auto simp: )
next
  case False
  then have "\<lfloor>x\<rfloor> + 1 \<le> \<lfloor>y\<rfloor>" using assms floor_mono [of x y] by linarith
  moreover have "round_even x \<le> \<lfloor>x\<rfloor> + 1" unfolding round_even_def by auto
  moreover have "\<lfloor>y\<rfloor> \<le> round_even y" unfolding round_even_def by auto
  ultimately show ?thesis by linarith
qed

lemma powr2_int: "2 powr (real_of_int k) = (2::real) powi k"
  by (simp add: powr_real_of_int')

lemma powr2_int_Suc: "2 powr (real_of_int k + 1) = (2::real) powi (k + 1)"
  using powr2_int [of "k + 1"] by simp

lemma binade:
  assumes "0 < x"
  shows "2 powi \<lfloor>log 2 x\<rfloor> \<le> x" "x < 2 powi (\<lfloor>log 2 x\<rfloor> + 1)"
proof -
  have "2 powr (real_of_int \<lfloor>log 2 x\<rfloor>) \<le> x \<and> x < 2 powr (real_of_int \<lfloor>log 2 x\<rfloor> + 1)"
    using floor_log_eq_powr_iff [of x 2 "\<lfloor>log 2 x\<rfloor>"] assms by simp
  then show "2 powi \<lfloor>log 2 x\<rfloor> \<le> x" "x < 2 powi (\<lfloor>log 2 x\<rfloor> + 1)"
    unfolding powr2_int powr2_int_Suc by simp_all
qed

lemma floor_log2_eq:
  assumes "2 powi e \<le> x" "x < 2 powi (e + 1)"
  shows "\<lfloor>log 2 x\<rfloor> = e"
proof -
  have "(0::real) < 2 powi e" by simp
  then have pos: "0 < x" using assms(1) by linarith
  have "2 powr (real_of_int e) \<le> x \<and> x < 2 powr (real_of_int e + 1)"
    unfolding powr2_int powr2_int_Suc using assms by simp
  then show ?thesis using floor_log_eq_powr_iff [of x 2 e] pos by simp
qed

lemma two_powi_pos [simp]: "(0::real) < 2 powi k"
  by simp

lemma two_powi_add: "(2::real) powi (a + b) = 2 powi a * 2 powi b"
  by (simp add: power_int_add)

lemma two_powi_diff: "(2::real) powi (a - b) = 2 powi a / 2 powi b"
  by (simp add: power_int_diff)

lemma two_powi_mono: "a \<le> b \<Longrightarrow> (2::real) powi a \<le> 2 powi b"
  by (simp add: power_int_increasing)

lemma two_powi_nat: "(2::real) powi (int n) = of_int (2 ^ n)"
  by simp

lemma rnd_0 [simp]: "rnd fmt 0 = 0"
  by (simp add: rnd_def)

lemma rnd_unfold:
  "x \<noteq> 0 \<Longrightarrow> rnd fmt x = of_int (round_even (x / 2 powi ulp_exp fmt x)) * 2 powi ulp_exp fmt x"
  by (simp add: rnd_def)

lemma ulp_exp_eq:
  assumes "2 powi e \<le> \<bar>x\<bar>" "\<bar>x\<bar> < 2 powi (e + 1)" "emin fmt \<le> e"
  shows "ulp_exp fmt x = e - int (prec fmt) + 1"
  using floor_log2_eq [OF assms(1,2)] assms(3) by (simp add: ulp_exp_def)

lemma rnd_eval:
  assumes "2 powi e \<le> \<bar>x\<bar>" "\<bar>x\<bar> < 2 powi (e + 1)" "emin fmt \<le> e"
  shows "rnd fmt x = of_int (round_even (x / 2 powi (e - int (prec fmt) + 1)))
                       * 2 powi (e - int (prec fmt) + 1)"
proof -
  have "(0::real) < 2 powi e" by simp
  then have "x \<noteq> 0" using assms(1) by linarith
  then show ?thesis by (simp add: rnd_unfold ulp_exp_eq [OF assms])
qed

lemma round_even_nonneg: "0 \<le> x \<Longrightarrow> 0 \<le> round_even x"
  using round_even_mono [of 0 x] round_even_of_int [of 0] by simp

lemma rnd_nonneg: "0 \<le> x \<Longrightarrow> 0 \<le> rnd fmt x"
  by (cases "x = 0") (simp_all add: rnd_unfold round_even_nonneg)

lemma rnd_upper:
  assumes x: "0 < x" and p: "1 \<le> prec fmt"
  shows "rnd fmt x \<le> 2 powi (max \<lfloor>log 2 x\<rfloor> (emin fmt) + 1)"
proof -
  let ?L = "max \<lfloor>log 2 x\<rfloor> (emin fmt)"
  let ?E = "ulp_exp fmt x"
  have E: "?E = ?L - int (prec fmt) + 1" using x by (simp add: ulp_exp_def)
  have "x < 2 powi (\<lfloor>log 2 x\<rfloor> + 1)" using binade(2) [OF x] .
  also have "\<dots> \<le> 2 powi (?L + 1)" by (intro two_powi_mono) simp
  finally have "x / 2 powi ?E \<le> 2 powi (?L + 1) / 2 powi ?E"
    by (simp add: divide_right_mono)
  also have "\<dots> = 2 powi (int (prec fmt))"
    unfolding two_powi_diff [symmetric] E by simp
  also have "\<dots> = of_int (2 ^ prec fmt)" by (rule two_powi_nat)
  finally have "round_even (x / 2 powi ?E) \<le> round_even (of_int (2 ^ prec fmt))"
    by (rule round_even_mono)
  then have "round_even (x / 2 powi ?E) \<le> 2 ^ prec fmt" by simp
  then have "real_of_int (round_even (x / 2 powi ?E)) \<le> 2 powi (int (prec fmt))"
    unfolding two_powi_nat by (simp only: of_int_le_iff)
  then have "rnd fmt x \<le> 2 powi (int (prec fmt)) * 2 powi ?E"
    using x by (simp add: rnd_unfold)
  also have "\<dots> = 2 powi (?L + 1)"
    unfolding two_powi_add [symmetric] E by simp
  finally show ?thesis .
qed

lemma rnd_lower:
  assumes x: "0 < x" and p: "1 \<le> prec fmt" and n: "emin fmt \<le> \<lfloor>log 2 x\<rfloor>"
  shows "2 powi \<lfloor>log 2 x\<rfloor> \<le> rnd fmt x"
proof -
  let ?l = "\<lfloor>log 2 x\<rfloor>"
  let ?E = "ulp_exp fmt x"
  have E: "?E = ?l - int (prec fmt) + 1" using x n by (simp add: ulp_exp_def)
  have ex: "int (prec fmt - 1) = ?l - ?E" unfolding E using p by simp
  have "(2::real) powi (int (prec fmt - 1)) = 2 powi ?l / 2 powi ?E"
    unfolding two_powi_diff [symmetric] ex ..
  also have "\<dots> \<le> x / 2 powi ?E"
    using binade(1) [OF x] by (simp add: divide_right_mono)
  finally have "of_int (2 ^ (prec fmt - 1)) \<le> x / 2 powi ?E"
    unfolding two_powi_nat .
  then have "round_even (of_int (2 ^ (prec fmt - 1))) \<le> round_even (x / 2 powi ?E)"
    by (rule round_even_mono)
  then have "2 ^ (prec fmt - 1) \<le> round_even (x / 2 powi ?E)" by simp
  then have "2 powi (int (prec fmt - 1)) \<le> real_of_int (round_even (x / 2 powi ?E))"
    unfolding two_powi_nat by (simp only: of_int_le_iff)
  then have "2 powi (int (prec fmt - 1)) * 2 powi ?E \<le> rnd fmt x"
    using x by (simp add: rnd_unfold)
  moreover have "2 powi (int (prec fmt - 1)) * 2 powi ?E = (2::real) powi ?l"
    unfolding two_powi_add [symmetric] ex by simp
  ultimately show ?thesis by simp
qed

lemma rnd_mono_pos:
  assumes x: "0 < x" and xy: "x \<le> y" and p: "1 \<le> prec fmt"
  shows "rnd fmt x \<le> rnd fmt y"
proof -
  have y: "0 < y" using x xy by linarith
  let ?lx = "\<lfloor>log 2 x\<rfloor>" and ?ly = "\<lfloor>log 2 y\<rfloor>"
  let ?Lx = "max ?lx (emin fmt)" and ?Ly = "max ?ly (emin fmt)"
  have l: "?lx \<le> ?ly" using x xy by (intro floor_mono) simp
  show ?thesis
  proof (cases "?Lx = ?Ly")
    case True
    then have E: "ulp_exp fmt x = ulp_exp fmt y" using x y by (simp add: ulp_exp_def)
    have "x / 2 powi ulp_exp fmt y \<le> y / 2 powi ulp_exp fmt y"
      using xy by (simp add: divide_right_mono)
    then have "round_even (x / 2 powi ulp_exp fmt y) \<le> round_even (y / 2 powi ulp_exp fmt y)"
      by (rule round_even_mono)
    then show ?thesis using x y by (simp add: rnd_unfold E)
  next
    case False
    then have lt: "?Lx < ?ly" and n: "emin fmt \<le> ?ly" using l by linarith+
    have "rnd fmt x \<le> 2 powi (?Lx + 1)" by (rule rnd_upper [OF x p])
    also have "\<dots> \<le> 2 powi ?ly" using lt by (intro two_powi_mono) linarith
    also have "\<dots> \<le> rnd fmt y" by (rule rnd_lower [OF y p n])
    finally show ?thesis .
  qed
qed

lemma rnd_mono:
  assumes "0 \<le> x" "x \<le> y" "1 \<le> prec fmt"
  shows "rnd fmt x \<le> rnd fmt y"
proof (cases "x = 0")
  case True
  then show ?thesis using assms rnd_nonneg [of y fmt] by simp
next
  case False
  then show ?thesis using assms by (intro rnd_mono_pos) simp_all
qed

lemma floor_log2_ge:
  assumes "2 powi e \<le> x"
  shows "e \<le> \<lfloor>log 2 x\<rfloor>"
proof (rule ccontr)
  assume "\<not> e \<le> \<lfloor>log 2 x\<rfloor>"
  then have "\<lfloor>log 2 x\<rfloor> + 1 \<le> e" by simp
  then have "(2::real) powi (\<lfloor>log 2 x\<rfloor> + 1) \<le> 2 powi e" by (rule two_powi_mono)
  moreover have "0 < x" using assms two_powi_pos [of e] by linarith
  ultimately show False using binade(2) [of x] assms by linarith
qed

lemma floor_log2_less:
  assumes "0 < x" "x < 2 powi e"
  shows "\<lfloor>log 2 x\<rfloor> < e"
proof (rule ccontr)
  assume "\<not> \<lfloor>log 2 x\<rfloor> < e"
  then have "(2::real) powi e \<le> 2 powi \<lfloor>log 2 x\<rfloor>" by (intro two_powi_mono) simp
  then show False using binade(1) [OF assms(1)] assms(2) by linarith
qed

lemma rnd_error:
  assumes x: "2 powi (emin fmt) \<le> x"
  shows "\<bar>rnd fmt x - x\<bar> \<le> x * 2 powi (- int (prec fmt))"
proof -
  have pos: "0 < x" using x two_powi_pos [of "emin fmt"] by linarith
  let ?l = "\<lfloor>log 2 x\<rfloor>"
  let ?E = "ulp_exp fmt x"
  have n: "emin fmt \<le> ?l" using x by (rule floor_log2_ge)
  have E: "?E = ?l - int (prec fmt) + 1" using pos n by (simp add: ulp_exp_def)
  define s where "s = x / 2 powi ?E"
  have xs: "x = s * 2 powi ?E" by (simp add: s_def)
  have r: "rnd fmt x = of_int (round_even s) * 2 powi ?E"
    using pos by (simp add: rnd_unfold s_def)
  have "\<bar>of_int (round_even s) - s\<bar> \<le> 1 / 2"
    using round_even_bounds [of s] by linarith
  then have "\<bar>of_int (round_even s) - s\<bar> * 2 powi ?E \<le> 1 / 2 * 2 powi ?E"
    by (intro mult_right_mono) simp_all
  moreover have "\<bar>rnd fmt x - x\<bar> = \<bar>of_int (round_even s) - s\<bar> * 2 powi ?E"
  proof -
    have "rnd fmt x - x = (of_int (round_even s) - s) * 2 powi ?E"
      unfolding r using xs by (simp add: algebra_simps)
    then show ?thesis by (simp add: abs_mult)
  qed
  moreover have "1 / 2 * 2 powi ?E = (2::real) powi ?l * 2 powi (- int (prec fmt))"
  proof -
    have "?E = (?l + (- int (prec fmt))) + 1" unfolding E by simp
    then have "(2::real) powi ?E = 2 powi (?l + (- int (prec fmt))) * 2 powi 1"
      by (simp only: two_powi_add)
    then have "(2::real) powi ?E = 2 powi ?l * 2 powi (- int (prec fmt)) * 2"
      by (simp only: two_powi_add power_int_1_right)
    then show ?thesis by simp
  qed
  moreover have "2 powi ?l * 2 powi (- int (prec fmt)) \<le> x * 2 powi (- int (prec fmt))"
    using binade(1) [OF pos] by (intro mult_right_mono) simp_all
  ultimately show ?thesis by linarith
qed

lemma rnd_of_nat:
  assumes n: "0 < n" "n < 2 ^ prec fmt" and e: "emin fmt \<le> 0"
  shows "rnd fmt (real n) = real n"
proof -
  let ?l = "\<lfloor>log 2 (real n)\<rfloor>"
  let ?E = "ulp_exp fmt (real n)"
  have pos: "0 < real n" using n by simp
  have "(2::real) powi 0 \<le> real n" using n by simp
  then have l0: "0 \<le> ?l" by (rule floor_log2_ge)
  have "real n < 2 powi (int (prec fmt))" using n(2) by (simp add: of_nat_less_iff [symmetric] del: of_nat_less_iff)
  then have lp: "?l < int (prec fmt)" using pos by (intro floor_log2_less)
  have "max ?l (emin fmt) = ?l" using l0 e by linarith
  then have E: "?E = ?l - int (prec fmt) + 1" using pos by (simp add: ulp_exp_def)
  define k where "k = nat (- ?E)"
  have k: "- ?E = int k" unfolding k_def E using lp by simp
  have "real n / 2 powi ?E = real n * 2 powi (- ?E)" by (simp add: power_int_minus field_simps)
  also have "\<dots> = of_int (int n * 2 ^ k)" unfolding k by simp
  finally have "round_even (real n / 2 powi ?E) = int n * 2 ^ k" by (simp only: round_even_of_int)
  then have "rnd fmt (real n) = of_int (int n * 2 ^ k) * 2 powi ?E"
    using pos by (simp add: rnd_unfold)
  also have "\<dots> = real n * (2 powi (int k) * 2 powi ?E)" by simp
  also have "2 powi (int k) * 2 powi ?E = (1::real)"
    unfolding two_powi_add [symmetric] k [symmetric] by simp
  finally show ?thesis by simp
qed

lemma fgt_trans: "fgt a b \<Longrightarrow> fgt b c \<Longrightarrow> fgt a c"
  by (cases a; cases b; cases c) auto

lemma fgt_total: "a \<noteq> NaN \<Longrightarrow> b \<noteq> NaN \<Longrightarrow> fgt a b \<or> a = b \<or> fgt b a"
  by (cases a; cases b) auto

lemma fgt_irrefl [simp]: "\<not> fgt a a"
  by (cases a) auto

lemma fgt_not_nan: "fgt a b \<Longrightarrow> a \<noteq> NaN \<and> b \<noteq> NaN"
  by (cases a; cases b) auto

lemma fgt_NegInf_left [simp]: "\<not> fgt NegInf a"
  by (cases a) auto

lemma fgt_NaN_right [simp]: "\<not> fgt a NaN"
  by (cases a) auto

lemma fgt_NegInf: "fgt a NegInf \<longleftrightarrow> a \<noteq> NaN \<and> a \<noteq> NegInf"
  by (cases a) auto

lemma round_even_near:
  assumes "\<bar>x - of_int f\<bar> < 1 / 2"
  shows "round_even x = f"
proof -
  have "\<bar>real_of_int (round_even x) - real_of_int f\<bar> < 1"
    using round_even_bounds [of x] assms by linarith
  then have "\<bar>real_of_int (round_even x - f)\<bar> < 1" by simp
  then have "\<bar>round_even x - f\<bar> < 1" by linarith
  then show ?thesis by linarith
qed

lemma ieee_round_finite:
  assumes "\<bar>rnd fmt x\<bar> < 2 ^ n" "int n \<le> emax fmt + 1"
  shows "ieee_round fmt x = Finite (rnd fmt x)"
proof -
  have "(2::real) ^ n = 2 powi (int n)" by simp
  also have "\<dots> \<le> 2 powi (emax fmt + 1)" using assms(2) by (rule two_powi_mono)
  finally show ?thesis using assms(1) by (simp add: ieee_round_def)
qed

lemma ieee_round_0 [simp]: "ieee_round fmt 0 = Finite 0"
proof -
  have "(0::real) < 2 powi (emax fmt + 1)" by simp
  then have "\<not> 2 powi (emax fmt + 1) \<le> (0::real)" by linarith
  then show ?thesis by (simp add: ieee_round_def)
qed

lemma rnd64_nat: "0 < n \<Longrightarrow> n < 2 ^ 53 \<Longrightarrow> rnd binary64 (real n) = real n"
  by (rule rnd_of_nat) (simp_all add: binary64_def)

lemma rnd64_1 [simp]: "rnd binary64 1 = 1"
  using rnd64_nat [of 1] by simp

lemma rnd64_2 [simp]: "rnd binary64 2 = 2"
  using rnd64_nat [of 2] by simp

lemma ieee64_nat:
  assumes "0 < n" "n < 2 ^ 53"
  shows "ieee_round binary64 (real n) = Finite (real n)"
proof -
  have "\<bar>rnd binary64 (real n)\<bar> < 2 ^ 53"
    unfolding rnd64_nat [OF assms] using assms(2)
    by (simp add: of_nat_less_iff [symmetric] del: of_nat_less_iff)
  then have "ieee_round binary64 (real n) = Finite (rnd binary64 (real n))"
    by (rule ieee_round_finite) (simp add: binary64_def)
  then show ?thesis by (simp only: rnd64_nat [OF assms])
qed

lemma ieee64_1 [simp]: "ieee_round binary64 1 = Finite 1"
  using ieee64_nat [of 1] by simp

lemma ieee64_2 [simp]: "ieee_round binary64 2 = Finite 2"
  using ieee64_nat [of 2] by simp

lemma rnd64_sqrt2: "rnd binary64 (sqrt 2) = 6369051672525773 / 4503599627370496"
proof -
  have lo: "(1::real) \<le> sqrt 2" by simp
  have hi: "sqrt 2 < 2" by (rule real_less_lsqrt) simp_all
  have e: "rnd binary64 (sqrt 2) =
      of_int (round_even (sqrt 2 / 2 powi (0 - int (prec binary64) + 1)))
        * 2 powi (0 - int (prec binary64) + 1)"
    by (rule rnd_eval) (use lo hi in \<open>simp_all add: binary64_def\<close>)
  have s: "sqrt 2 / 2 powi (0 - int (prec binary64) + 1) = sqrt 2 * 4503599627370496"
    by (simp add: binary64_def power_int_minus)
  have a: "(12738103345051545 / 9007199254740992 :: real) < sqrt 2"
    by (rule real_less_rsqrt) (simp add: power2_eq_square)
  have b: "sqrt 2 < (12738103345051547 / 9007199254740992 :: real)"
    by (rule real_less_lsqrt) (simp_all add: power2_eq_square)
  have "round_even (sqrt 2 * 4503599627370496) = 6369051672525773"
  proof (rule round_even_near)
    show "\<bar>sqrt 2 * 4503599627370496 - real_of_int 6369051672525773\<bar> < 1 / 2"
      unfolding abs_less_iff using a b by (simp only: of_int_numeral) linarith
  qed
  then show ?thesis unfolding e s by (simp add: binary64_def power_int_minus)
qed

lemma fsqrt64_2: "fsqrt binary64 2 = Finite (6369051672525773 / 4503599627370496)"
proof -
  have "\<bar>rnd binary64 (sqrt 2)\<bar> < 2 ^ 1" unfolding rnd64_sqrt2 by simp
  then have "ieee_round binary64 (sqrt 2) = Finite (rnd binary64 (sqrt 2))"
    by (rule ieee_round_finite) (simp add: binary64_def)
  then show ?thesis by (simp only: fsqrt_def rnd64_sqrt2)
qed

lemma fsqrt64_1: "fsqrt binary64 1 = Finite 1"
  by (simp add: fsqrt_def)

lemma rnd64_eval:
  assumes "2 powi e \<le> \<bar>x\<bar>" "\<bar>x\<bar> < 2 powi (e + 1)" "- 1022 \<le> e"
    and "\<bar>x / 2 powi (e - 52) - of_int R\<bar> < 1 / 2"
  shows "rnd binary64 x = of_int R * 2 powi (e - 52)"
proof -
  have e: "e - int (prec binary64) + 1 = e - 52" by (simp add: binary64_def)
  have "rnd binary64 x = of_int (round_even (x / 2 powi (e - int (prec binary64) + 1)))
                       * 2 powi (e - int (prec binary64) + 1)"
    by (rule rnd_eval) (use assms in \<open>simp_all add: binary64_def\<close>)
  then show ?thesis unfolding e using round_even_near [OF assms(4)] by simp
qed

lemma rnd64_q:
  "rnd binary64 (1592262918131443 / 2251799813685248) = 1592262918131443 / 2251799813685248"
proof -
  have "rnd binary64 (1592262918131443 / 2251799813685248) =
      of_int 6369051672525772 * 2 powi (- 1 - 52)"
    by (rule rnd64_eval) (simp_all add: power_int_minus)
  then show ?thesis by (simp add: power_int_minus)
qed

lemma rnd64_inv_sqrt2:
  "rnd binary64 (4503599627370496 / 6369051672525773) = 1592262918131443 / 2251799813685248"
proof -
  have "rnd binary64 (4503599627370496 / 6369051672525773) =
      of_int 6369051672525772 * 2 powi (- 1 - 52)"
    by (rule rnd64_eval) (simp_all add: power_int_minus abs_less_iff)
  then show ?thesis by (simp add: power_int_minus)
qed

lemma ieee64_q [simp]:
  "ieee_round binary64 (1592262918131443 / 2251799813685248) =
     Finite (1592262918131443 / 2251799813685248)"
proof -
  have "\<bar>rnd binary64 (1592262918131443 / 2251799813685248)\<bar> < 2 ^ 1"
    unfolding rnd64_q by simp
  then have "ieee_round binary64 (1592262918131443 / 2251799813685248) =
      Finite (rnd binary64 (1592262918131443 / 2251799813685248))"
    by (rule ieee_round_finite) (simp add: binary64_def)
  then show ?thesis by (simp only: rnd64_q)
qed

lemma ieee64_inv_sqrt2 [simp]:
  "ieee_round binary64 (4503599627370496 / 6369051672525773) =
     Finite (1592262918131443 / 2251799813685248)"
proof -
  have "\<bar>rnd binary64 (4503599627370496 / 6369051672525773)\<bar> < 2 ^ 1"
    unfolding rnd64_inv_sqrt2 by simp
  then have "ieee_round binary64 (4503599627370496 / 6369051672525773) =
      Finite (rnd binary64 (4503599627370496 / 6369051672525773))"
    by (rule ieee_round_finite) (simp add: binary64_def)
  then show ?thesis by (simp only: rnd64_inv_sqrt2)
qed

lemma f64_0 [simp]: "f64 0 = 0"
  by (simp add: f64_def)

lemma f64_nat: "n < 2 ^ 53 \<Longrightarrow> f64 (real n) = real n"
  by (cases "n = 0") (simp_all add: f64_def rnd64_nat)

lemma f64_nonneg: "0 \<le> x \<Longrightarrow> 0 \<le> f64 x"
  by (simp add: f64_def rnd_nonneg)

lemma f64_mono: "0 \<le> x \<Longrightarrow> x \<le> y \<Longrightarrow> f64 x \<le> f64 y"
  unfolding f64_def by (rule rnd_mono) (simp_all add: binary64_def)

lemma f64_ge_nat:
  assumes "real n \<le> x" "n < 2 ^ 53"
  shows "real n \<le> f64 x"
proof -
  have "f64 (real n) \<le> f64 x" using assms(1) by (intro f64_mono) simp_all
  then show ?thesis by (simp add: f64_nat [OF assms(2)])
qed

lemma f64_le_nat:
  assumes "0 \<le> x" "x \<le> real n" "n < 2 ^ 53"
  shows "f64 x \<le> real n"
proof -
  have "f64 x \<le> f64 (real n)" using assms(1,2) by (rule f64_mono)
  then show ?thesis by (simp add: f64_nat [OF assms(3)])
qed

lemma two_powi_le_1: "k \<le> 0 \<Longrightarrow> (2::real) powi k \<le> 1"
  using two_powi_mono [of k 0] by simp

lemma f64_error:
  assumes "1 \<le> x"
  shows "\<bar>f64 x - x\<bar> \<le> x * (1 / 2 ^ 53)"
proof -
  have "emin binary64 \<le> 0" by (simp add: binary64_def)
  then have "(2::real) powi (emin binary64) \<le> 1" by (rule two_powi_le_1)
  then have "2 powi (emin binary64) \<le> x" using assms by linarith
  then have "\<bar>rnd binary64 x - x\<bar> \<le> x * 2 powi (- int (prec binary64))" by (rule rnd_error)
  moreover have "(2::real) powi (- int (prec binary64)) = 1 / 2 ^ 53"
    by (simp add: binary64_def power_int_minus inverse_eq_divide)
  ultimately show ?thesis by (simp only: f64_def)
qed

lemma f64_numeral: "numeral w < (2::nat) ^ 53 \<Longrightarrow> f64 (numeral w) = numeral w"
  using f64_nat [of "numeral w"] by simp

lemma f64_error_num:
  assumes "1 \<le> x"
  shows "\<bar>f64 x - x\<bar> \<le> x / 9007199254740992"
  using f64_error [OF assms] by simp

lemma f64_twice_upper:
  assumes "1 \<le> x" "x \<le> 4"
  shows "f64 (f64 x) \<le> x + 1 / 1000"
proof -
  have a: "\<bar>f64 x - x\<bar> \<le> x / 9007199254740992" using assms(1) by (rule f64_error_num)
  have "real 1 \<le> f64 x" by (rule f64_ge_nat) (use assms in simp_all)
  then have "1 \<le> f64 x" by simp
  then have b: "\<bar>f64 (f64 x) - f64 x\<bar> \<le> f64 x / 9007199254740992"
    by (rule f64_error_num)
  show ?thesis using a b assms(2) by linarith
qed

lemma f64_twice_floor:
  assumes "real n \<le> x" "x + 1 / 1000 < real n + 1" "1 \<le> n" "n \<le> 3"
  shows "\<lfloor>f64 (f64 x)\<rfloor> = int n"
proof -
  have n: "n < 2 ^ 53" using assms(4) by simp
  have x: "1 \<le> x" "x \<le> 4" using assms by simp_all
  have "real n \<le> f64 x" using assms(1) n by (rule f64_ge_nat)
  then have "real n \<le> f64 (f64 x)" using n by (rule f64_ge_nat)
  moreover have "f64 (f64 x) < real n + 1" using f64_twice_upper [OF x] assms(2) by linarith
  ultimately show ?thesis by (simp add: floor_eq_iff)
qed

lemma f64_15_11: "f64 (15 / 11) = 6141272219141585 / 4503599627370496"
proof -
  have "rnd binary64 (15 / 11) = of_int 6141272219141585 * 2 powi (0 - 52)"
    by (rule rnd64_eval) (simp_all add: power_int_minus abs_less_iff)
  then show ?thesis by (simp add: f64_def power_int_minus)
qed

lemma f64_below_15:
  "f64 (67553994410557435 / 4503599627370496) = 8444249301319679 / 562949953421312"
proof -
  have "rnd binary64 (67553994410557435 / 4503599627370496) =
      of_int 8444249301319679 * 2 powi (3 - 52)"
    by (rule rnd64_eval) (simp_all add: power_int_minus abs_less_iff)
  then show ?thesis by (simp add: f64_def power_int_minus)
qed

lemma f64_below_15_fixed:
  "f64 (8444249301319679 / 562949953421312) = 8444249301319679 / 562949953421312"
proof -
  have "rnd binary64 (8444249301319679 / 562949953421312) =
      of_int 8444249301319679 * 2 powi (3 - 52)"
    by (rule rnd64_eval) (simp_all add: power_int_minus abs_less_iff)
  then show ?thesis by (simp add: f64_def power_int_minus)
qed

section \<open>Flow direction: the loops, cell by cell\<close>

lemma d8_row_at:
  "foldl (d8_cell fmt dem i) g [a ..< b] (i', j') =
     (if i' = i \<and> a \<le> j' \<and> j' < b \<and> cell dem (i, j') \<noteq> NaN
      then cell_direction fmt dem i j' (cell dem (i, j'))
      else g (i', j'))"
  by (induction b) (auto simp: d8_cell_def less_Suc_eq Let_def)

lemma d8_rows_at:
  "foldl (d8_row fmt dem) g [a ..< b] (i', j') =
     (if a \<le> i' \<and> i' < b \<and> 1 \<le> j' \<and> j' < ncols dem - 1 \<and> cell dem (i', j') \<noteq> NaN
      then cell_direction fmt dem i' j' (cell dem (i', j'))
      else g (i', j'))"
  by (induction b) (auto simp: d8_row_def d8_row_at less_Suc_eq)

lemma d8_at:
  "cell (calculate_flow_direction_d8 fmt dem) (i, j) =
     (if interior dem i j \<and> cell dem (i, j) \<noteq> NaN
      then cell_direction fmt dem i j (cell dem (i, j))
      else 0)"
  unfolding calculate_flow_direction_d8_def interior_def
  by (auto simp: d8_rows_at)

lemma d8_shape [simp]:
  "nrows (calculate_flow_direction_d8 fmt dem) = nrows dem"
  "ncols (calculate_flow_direction_d8 fmt dem) = ncols dem"
  by (simp_all add: calculate_flow_direction_d8_def)

lemma neighbor_step_alt:
  "neighbor_step fmt dem i j (cell dem (i, j)) st n =
     (if valid_neighbor dem i j n \<and> fgt (slope_to fmt dem i j n) (fst st)
      then (slope_to fmt dem i j n, snd (snd n)) else st)"
  by (cases st; cases n) (auto simp: valid_neighbor_def slope_to_def Let_def)

text \<open>
  The neighbour loop, for any list of candidates: either no candidate had a computed slope
  above minus infinity and the initial pair is returned, or the pair holds the slope and
  the code of the first valid candidate of maximal computed slope.
\<close>

lemma foldl_neighbor_step:
  "(foldl (neighbor_step fmt dem i j (cell dem (i, j))) (NegInf, 0) ns = (NegInf, 0) \<and>
      (\<forall>n \<in> set ns. valid_neighbor dem i j n \<longrightarrow> \<not> fgt (slope_to fmt dem i j n) NegInf)) \<or>
   (\<exists>k. first_steepest fmt dem i j ns k \<and>
      foldl (neighbor_step fmt dem i j (cell dem (i, j))) (NegInf, 0) ns =
        (slope_to fmt dem i j (ns ! k), snd (snd (ns ! k))))"
proof (induction ns rule: rev_induct)
  case Nil
  then show ?case by simp
next
  case (snoc n ns)
  let ?f = "neighbor_step fmt dem i j (cell dem (i, j))"
  let ?s = "slope_to fmt dem i j"
  let ?st = "foldl ?f (NegInf, 0) ns"
  have step: "foldl ?f (NegInf, 0) (ns @ [n]) =
      (if valid_neighbor dem i j n \<and> fgt (?s n) (fst ?st) then (?s n, snd (snd n)) else ?st)"
    by (simp add: neighbor_step_alt)
  from snoc.IH show ?case
  proof
    assume none: "?st = (NegInf, 0) \<and>
      (\<forall>n \<in> set ns. valid_neighbor dem i j n \<longrightarrow> \<not> fgt (?s n) NegInf)"
    show ?thesis
    proof (cases "valid_neighbor dem i j n \<and> fgt (?s n) NegInf")
      case False
      with none step show ?thesis by auto
    next
      case True
      have low: "\<not> fgt (?s (ns ! k')) (?s n) \<and> (?s (ns ! k') = NaN \<or> fgt (?s n) (?s (ns ! k')))"
        if "k' < length ns" "valid_neighbor dem i j (ns ! k')" for k'
      proof -
        have "\<not> fgt (?s (ns ! k')) NegInf" using none that by simp
        then have "?s (ns ! k') = NaN \<or> ?s (ns ! k') = NegInf" by (simp add: fgt_NegInf)
        then show ?thesis using True by (auto simp: fgt_NegInf)
      qed
      have "first_steepest fmt dem i j (ns @ [n]) (length ns)"
        unfolding first_steepest_def using True low
        by (auto simp: nth_append less_Suc_eq)
      moreover have "foldl ?f (NegInf, 0) (ns @ [n]) = (?s n, snd (snd n))"
        using True none step by simp
      ultimately show ?thesis by (intro disjI2 exI [of _ "length ns"]) simp
    qed
  next
    assume "\<exists>k. first_steepest fmt dem i j ns k \<and> ?st = (?s (ns ! k), snd (snd (ns ! k)))"
    then obtain k where k: "first_steepest fmt dem i j ns k"
      and st: "?st = (?s (ns ! k), snd (snd (ns ! k)))" by blast
    have klt: "k < length ns" and kv: "valid_neighbor dem i j (ns ! k)"
      and kinf: "fgt (?s (ns ! k)) NegInf"
      and kmax: "\<And>k'. k' < length ns \<Longrightarrow> valid_neighbor dem i j (ns ! k') \<Longrightarrow>
                  \<not> fgt (?s (ns ! k')) (?s (ns ! k))"
      and kfirst: "\<And>k'. k' < k \<Longrightarrow> valid_neighbor dem i j (ns ! k') \<Longrightarrow>
                  ?s (ns ! k') = NaN \<or> fgt (?s (ns ! k)) (?s (ns ! k'))"
      using k unfolding first_steepest_def by auto
    show ?thesis
    proof (cases "valid_neighbor dem i j n \<and> fgt (?s n) (?s (ns ! k))")
      case True
      then have gt: "fgt (?s n) (?s (ns ! k))" and nv: "valid_neighbor dem i j n" by simp_all
      have low: "\<not> fgt (?s (ns ! k')) (?s n) \<and> (?s (ns ! k') = NaN \<or> fgt (?s n) (?s (ns ! k')))"
        if "k' < length ns" "valid_neighbor dem i j (ns ! k')" for k'
      proof -
        have nk: "\<not> fgt (?s (ns ! k')) (?s (ns ! k))" using kmax that by simp
        have a: "\<not> fgt (?s (ns ! k')) (?s n)"
        proof
          assume "fgt (?s (ns ! k')) (?s n)"
          then have "fgt (?s (ns ! k')) (?s (ns ! k))" using gt by (rule fgt_trans)
          with nk show False by simp
        qed
        have b: "?s (ns ! k') = NaN \<or> fgt (?s n) (?s (ns ! k'))"
        proof (cases "?s (ns ! k') = NaN")
          case False
          moreover have "?s (ns ! k) \<noteq> NaN" using kinf fgt_not_nan by blast
          ultimately have "fgt (?s (ns ! k)) (?s (ns ! k')) \<or> ?s (ns ! k') = ?s (ns ! k)"
            using fgt_total [of "?s (ns ! k')" "?s (ns ! k)"] nk by auto
          then show ?thesis using gt fgt_trans by auto
        qed simp
        show ?thesis using a b by simp
      qed
      have ninf: "fgt (?s n) NegInf" using gt kinf by (rule fgt_trans)
      have "first_steepest fmt dem i j (ns @ [n]) (length ns)"
        unfolding first_steepest_def using nv ninf low
        by (auto simp: nth_append less_Suc_eq)
      moreover have "foldl ?f (NegInf, 0) (ns @ [n]) = (?s n, snd (snd n))"
        using True st step by simp
      ultimately show ?thesis by (intro disjI2 exI [of _ "length ns"]) simp
    next
      case False
      have "first_steepest fmt dem i j (ns @ [n]) k"
        unfolding first_steepest_def using False klt kv kinf kmax kfirst
        by (auto simp: nth_append less_Suc_eq)
      moreover have "foldl ?f (NegInf, 0) (ns @ [n]) = ?st"
        using False st step by auto
      ultimately show ?thesis using st klt by (intro disjI2 exI [of _ k]) (simp add: nth_append)
    qed
  qed
qed

lemma cell_direction_cases:
  "(cell_direction fmt dem i j (cell dem (i, j)) = 0 \<and>
      (\<forall>n \<in> set neighbors. valid_neighbor dem i j n \<longrightarrow> \<not> fgt (slope_to fmt dem i j n) NegInf)) \<or>
   (\<exists>k. first_steepest fmt dem i j neighbors k \<and>
      cell_direction fmt dem i j (cell dem (i, j)) = snd (snd (neighbors ! k)))"
  using foldl_neighbor_step [of fmt dem i j neighbors] unfolding cell_direction_def by auto

lemma neighbors_codes:
  "k < length neighbors \<Longrightarrow>
     snd (snd (neighbors ! k)) \<in> {1, 2, 4, 8, 16, 32, 64, 128} \<and>
     dir_to_offset (snd (snd (neighbors ! k))) = Some (fst (neighbors ! k), fst (snd (neighbors ! k))) \<and>
     fst (neighbors ! k) \<in> {-1, 0, 1} \<and> fst (snd (neighbors ! k)) \<in> {-1, 0, 1}"
  by (simp add: neighbors_def dir_to_offset_def less_Suc_eq numeral_eq_Suc) auto

lemmas d8_eval =
  d8_at interior_def of_rows_def cell_direction_def neighbors_def in_bounds_def
  fsqrt64_1 fsqrt64_2

lemma tie3_code: "cell (calculate_flow_direction_d8 binary64 tie3) (1, 1) = 1"
  by (simp add: d8_eval tie3_def)

lemma dell3_code: "cell (calculate_flow_direction_d8 binary64 dell3) (1, 1) = 4"
  by (simp add: d8_eval dell3_def)

lemma tie3_exact:
  "spec_slope tie3 1 1 (neighbors ! 1) < spec_slope tie3 1 1 (neighbors ! 2)"
proof -
  have "sqrt 2 < (2251799813685248 / 1592262918131443 :: real)"
    by (rule real_less_lsqrt) (simp_all add: power2_eq_square)
  then have "(1592262918131443 / 2251799813685248 :: real) < 1 / sqrt 2"
    by (simp add: field_simps)
  then show ?thesis
    by (simp add: spec_slope_def neighbors_def tie3_def of_rows_def real_of_def)
qed

section \<open>Flow accumulation: invariants of the propagation loop\<close>

lemma posD: "pos s \<Longrightarrow> 1 \<le> flow_acc s x"
  unfolding pos_def by blast

lemma visit_cell_alt:
  "visit_cell fd s c =
     (if processed s c then s
      else (case downstream fd c of
              None \<Rightarrow> s
            | Some d \<Rightarrow>
                if flow_acc s d > 1000000 then s\<lparr>processed := (processed s)(c := True)\<rparr>
                else s\<lparr>flow_acc := (flow_acc s)(d := flow_acc s d + flow_acc s c),
                       changed := (if \<bar>flow_acc s c\<bar> > 1 / 10 then True else changed s)\<rparr>))"
  by (cases c) (auto simp: visit_cell_def downstream_def Let_def split: option.splits)

lemma visit_cell_pos:
  assumes "pos s"
  shows "pos (visit_cell fd s c)"
  unfolding pos_def
proof
  fix x
  have "1 \<le> flow_acc s x" "1 \<le> flow_acc s c" using assms by (rule posD)+
  then show "1 \<le> flow_acc (visit_cell fd s c) x"
    by (auto simp: visit_cell_alt split: option.splits)
qed

lemma visit_cell_mono:
  assumes "pos s"
  shows "flow_acc s x \<le> flow_acc (visit_cell fd s c) x"
proof -
  have "1 \<le> flow_acc s c" using assms by (rule posD)
  then show ?thesis by (auto simp: visit_cell_alt split: option.splits)
qed

lemma visit_cell_processed: "processed s x \<Longrightarrow> processed (visit_cell fd s c) x"
  unfolding visit_cell_alt by (auto split: option.splits)

lemma visit_cell_changed: "changed s \<Longrightarrow> changed (visit_cell fd s c)"
  unfolding visit_cell_alt by (auto split: option.splits)

lemma visit_cell_push:
  assumes "downstream fd c = Some d" "pos s" "\<not> processed (visit_cell fd s c) c"
  shows "flow_acc s d \<le> 1000000 \<and>
         flow_acc (visit_cell fd s c) d = flow_acc s d + flow_acc s c \<and>
         changed (visit_cell fd s c)"
proof -
  have "1 \<le> flow_acc s c" using assms(2) unfolding pos_def by blast
  then have "\<bar>flow_acc s c\<bar> > 1 / 10" by simp
  with assms show ?thesis unfolding visit_cell_alt by (auto split: if_splits)
qed

lemma foldl_visit_pos: "pos s \<Longrightarrow> pos (foldl (visit_cell fd) s cs)"
  by (induction cs arbitrary: s) (auto simp: visit_cell_pos)

lemma foldl_visit_mono: "pos s \<Longrightarrow> flow_acc s x \<le> flow_acc (foldl (visit_cell fd) s cs) x"
proof (induction cs arbitrary: s)
  case Nil then show ?case by simp
next
  case (Cons c cs)
  have "flow_acc s x \<le> flow_acc (visit_cell fd s c) x" using Cons.prems by (rule visit_cell_mono)
  also have "\<dots> \<le> flow_acc (foldl (visit_cell fd) (visit_cell fd s c) cs) x"
    using Cons.prems by (intro Cons.IH visit_cell_pos)
  finally show ?case by simp
qed

lemma foldl_visit_processed:
  "processed s x \<Longrightarrow> processed (foldl (visit_cell fd) s cs) x"
  by (induction cs arbitrary: s) (auto simp: visit_cell_processed)

lemma foldl_visit_changed: "changed s \<Longrightarrow> changed (foldl (visit_cell fd) s cs)"
  by (induction cs arbitrary: s) (auto simp: visit_cell_changed)

lemma foldl_visit_push:
  assumes c: "c \<in> set cs" and d: "downstream fd c = Some d" and p: "pos s"
    and np: "\<not> processed (foldl (visit_cell fd) s cs) c"
  shows "flow_acc s d \<le> 1000000 \<and>
         flow_acc s d + flow_acc s c \<le> flow_acc (foldl (visit_cell fd) s cs) d \<and>
         changed (foldl (visit_cell fd) s cs)"
proof -
  from c obtain xs ys where cs: "cs = xs @ c # ys" by (auto simp: in_set_conv_decomp)
  define s1 where "s1 = foldl (visit_cell fd) s xs"
  define s2 where "s2 = visit_cell fd s1 c"
  have fin: "foldl (visit_cell fd) s cs = foldl (visit_cell fd) s2 ys"
    by (simp add: cs s1_def s2_def)
  have p1: "pos s1" unfolding s1_def using p by (rule foldl_visit_pos)
  have p2: "pos s2" unfolding s2_def using p1 by (rule visit_cell_pos)
  have "\<not> processed s2 c" using np foldl_visit_processed [of s2 c fd ys] by (auto simp: fin)
  from visit_cell_push [OF d p1 this [unfolded s2_def]]
  have a: "flow_acc s1 d \<le> 1000000" and b: "flow_acc s2 d = flow_acc s1 d + flow_acc s1 c"
    and ch: "changed s2" by (simp_all add: s2_def)
  have m1: "flow_acc s x \<le> flow_acc s1 x" for x unfolding s1_def using p by (rule foldl_visit_mono)
  have m2: "flow_acc s2 x \<le> flow_acc (foldl (visit_cell fd) s cs) x" for x
    unfolding fin using p2 by (rule foldl_visit_mono)
  have "flow_acc s d \<le> 1000000" using a m1 [of d] by linarith
  moreover have "flow_acc s d + flow_acc s c \<le> flow_acc (foldl (visit_cell fd) s cs) d"
    using b m1 [of d] m1 [of c] m2 [of d] by linarith
  moreover have "changed (foldl (visit_cell fd) s cs)"
    unfolding fin using ch by (rule foldl_visit_changed)
  ultimately show ?thesis by blast
qed

lemma pos_changed [simp]: "pos (s\<lparr>changed := b\<rparr>) = pos s"
  by (simp add: pos_def)

lemma full_pass_pos: "pos s \<Longrightarrow> pos (full_pass fd s)"
  unfolding full_pass_def by (intro foldl_visit_pos) simp

lemma full_pass_mono: "pos s \<Longrightarrow> flow_acc s x \<le> flow_acc (full_pass fd s) x"
  unfolding full_pass_def using foldl_visit_mono [of "s\<lparr>changed := False\<rparr>" x fd] by simp

lemma full_pass_processed: "processed s x \<Longrightarrow> processed (full_pass fd s) x"
  unfolding full_pass_def using foldl_visit_processed [of "s\<lparr>changed := False\<rparr>" x fd] by simp

lemma in_grid_cells: "c \<in> set (grid_cells rows cols) \<longleftrightarrow> fst c < rows \<and> snd c < cols"
  by (cases c) (simp add: grid_cells_def)

lemma full_pass_push:
  assumes "routes_into fd c d" "pos s" "\<not> processed (full_pass fd s) c"
  shows "flow_acc s d \<le> 1000000 \<and>
         flow_acc s d + flow_acc s c \<le> flow_acc (full_pass fd s) d \<and>
         changed (full_pass fd s)"
proof -
  have c: "c \<in> set (grid_cells (nrows fd) (ncols fd))"
    using assms(1) by (simp add: in_grid_cells routes_into_def)
  have d: "downstream fd c = Some d" using assms(1) by (simp add: routes_into_def)
  from foldl_visit_push [OF c d, of "s\<lparr>changed := False\<rparr>"] assms(2,3)
  show ?thesis by (simp add: full_pass_def)
qed

lemma iterate_Cons_fst:
  "fst (iterate fd mx (i # its) s) =
     (if changed (full_pass fd s) then fst (iterate fd mx its (full_pass fd s))
      else full_pass fd s)"
  by (simp add: Let_def split: prod.splits)

lemma iterate_pos: "pos s \<Longrightarrow> pos (fst (iterate fd mx its s))"
proof (induction its arbitrary: s)
  case Nil then show ?case by simp
next
  case (Cons i its)
  have "pos (full_pass fd s)" using Cons.prems by (rule full_pass_pos)
  from Cons.IH [OF this] this show ?case by (simp only: iterate_Cons_fst split: if_splits) simp
qed

lemma iterate_processed: "processed s x \<Longrightarrow> processed (fst (iterate fd mx its s)) x"
proof (induction its arbitrary: s)
  case Nil then show ?case by simp
next
  case (Cons i its)
  have "processed (full_pass fd s) x" using Cons.prems by (rule full_pass_processed)
  from Cons.IH [OF this] this show ?case by (simp only: iterate_Cons_fst split: if_splits) simp
qed

lemma cycle_doubles:
  assumes ab: "routes_into fd a b" and ba: "routes_into fd b a" and p: "pos s"
    and na: "\<not> processed (fst (iterate fd mx its s)) a"
    and nb: "\<not> processed (fst (iterate fd mx its s)) b"
    and m: "m \<le> flow_acc s a" "m \<le> flow_acc s b" and its: "its \<noteq> []"
  shows "m * 2 ^ (length its - 1) \<le> 1000000"
  using p na nb m its
proof (induction its arbitrary: s m)
  case Nil then show ?case by simp
next
  case (Cons i its)
  define s' where "s' = full_pass fd s"
  have p': "pos s'" unfolding s'_def using Cons.prems(1) by (rule full_pass_pos)
  have fin: "processed s' x \<Longrightarrow> processed (fst (iterate fd mx (i # its) s)) x" for x
    using iterate_processed [of s' x fd mx its]
    by (simp only: iterate_Cons_fst s'_def split: if_splits) simp
  have na': "\<not> processed s' a" and nb': "\<not> processed s' b"
    using fin Cons.prems(2,3) by blast+
  from full_pass_push [OF ab Cons.prems(1) na' [unfolded s'_def]]
  have b1: "flow_acc s b \<le> 1000000" and b2: "flow_acc s b + flow_acc s a \<le> flow_acc s' b"
    and ch: "changed s'" by (simp_all add: s'_def)
  from full_pass_push [OF ba Cons.prems(1) nb' [unfolded s'_def]]
  have a2: "flow_acc s a + flow_acc s b \<le> flow_acc s' a" by (simp add: s'_def)
  have m1: "m \<le> 1000000" using b1 Cons.prems(5) by linarith
  show ?case
  proof (cases "its = []")
    case True
    then show ?thesis using m1 by simp
  next
    case False
    have eq: "fst (iterate fd mx (i # its) s) = fst (iterate fd mx its s')"
      using ch by (simp only: iterate_Cons_fst s'_def) simp
    have "(2 * m) * 2 ^ (length its - 1) \<le> 1000000"
    proof (rule Cons.IH [OF p' _ _ _ _ False])
      show "\<not> processed (fst (iterate fd mx its s')) a" using Cons.prems(2) unfolding eq .
      show "\<not> processed (fst (iterate fd mx its s')) b" using Cons.prems(3) unfolding eq .
      show "2 * m \<le> flow_acc s' a" using a2 Cons.prems(4,5) by linarith
      show "2 * m \<le> flow_acc s' b" using b2 Cons.prems(4,5) by linarith
    qed
    moreover have "(2::real) ^ (length its) = 2 * 2 ^ (length its - 1)"
      using False by (cases its) simp_all
    ultimately show ?thesis by simp
  qed
qed

lemma visit_cell_guarded: "pos s \<Longrightarrow> guarded fd s \<Longrightarrow> guarded fd (visit_cell fd s c)"
  unfolding guarded_def
proof (intro allI impI)
  fix x d assume p: "pos s" and g: "\<forall>c d. processed s c \<longrightarrow> downstream fd c = Some d \<longrightarrow> flow_acc s d > 1000000"
    and px: "processed (visit_cell fd s c) x" and dx: "downstream fd x = Some d"
  have mono: "flow_acc s d \<le> flow_acc (visit_cell fd s c) d" using p by (rule visit_cell_mono)
  show "1000000 < flow_acc (visit_cell fd s c) d"
  proof (cases "processed s x")
    case True
    then show ?thesis using g dx mono by fastforce
  next
    case False
    then show ?thesis using px dx unfolding visit_cell_alt
      by (auto split: if_splits option.splits)
  qed
qed

lemma foldl_visit_guarded: "pos s \<Longrightarrow> guarded fd s \<Longrightarrow> guarded fd (foldl (visit_cell fd) s cs)"
  by (induction cs arbitrary: s) (auto simp: visit_cell_guarded visit_cell_pos)

lemma guarded_changed [simp]: "guarded fd (s\<lparr>changed := b\<rparr>) = guarded fd s"
  by (simp add: guarded_def)

lemma full_pass_guarded: "pos s \<Longrightarrow> guarded fd s \<Longrightarrow> guarded fd (full_pass fd s)"
  unfolding full_pass_def by (intro foldl_visit_guarded) simp_all

lemma iterate_guarded: "pos s \<Longrightarrow> guarded fd s \<Longrightarrow> guarded fd (fst (iterate fd mx its s))"
proof (induction its arbitrary: s)
  case Nil then show ?case by simp
next
  case (Cons i its)
  have "pos (full_pass fd s)" "guarded fd (full_pass fd s)"
    using Cons.prems by (simp_all add: full_pass_pos full_pass_guarded)
  from Cons.IH [OF this] this show ?case by (simp only: iterate_Cons_fst split: if_splits) simp
qed

lemma pos_initial: "pos initial_state"
  by (simp add: pos_def initial_state_def)

lemma guarded_initial: "guarded fd initial_state"
  by (simp add: guarded_def initial_state_def)

lemma iterate_upt:
  assumes "a \<le> b" "b \<le> mx"
  shows "\<exists>n out. iterate fd mx [a ..< b] s = ((full_pass fd ^^ n) s, out, n) \<and>
           n \<le> b - a \<and> (a < b \<longrightarrow> 1 \<le> n) \<and>
           (\<forall>k. 1 \<le> k \<and> k < n \<longrightarrow> changed ((full_pass fd ^^ k) s)) \<and>
           (if a < b \<and> \<not> changed ((full_pass fd ^^ n) s) then out = [Converged (a + n)]
            else n = b - a \<and> out = (if a < b \<and> b = mx then [NotConverged mx] else []))"
  using assms
proof (induction "b - a" arbitrary: a s)
  case 0
  then show ?case by simp
next
  case (Suc d)
  then have ab: "a < b" and d: "d = b - Suc a" and le: "Suc a \<le> b" by simp_all
  have upt: "[a ..< b] = a # [Suc a ..< b]" using ab by (simp add: upt_conv_Cons)
  define s' where "s' = full_pass fd s"
  show ?case
  proof (cases "changed s'")
    case False
    have "iterate fd mx [a ..< b] s = ((full_pass fd ^^ 1) s, [Converged (a + 1)], 1)"
      using False by (simp add: upt s'_def Let_def)
    moreover have "\<not> changed ((full_pass fd ^^ 1) s)" using False by (simp add: s'_def)
    ultimately show ?thesis using ab
      by (intro exI [of _ 1] exI [of _ "[Converged (a + 1)]"]) simp
  next
    case True
    from Suc.hyps(1) [OF d le Suc.prems(2), of s']
    obtain n out where it: "iterate fd mx [Suc a ..< b] s' = ((full_pass fd ^^ n) s', out, n)"
      and n: "n \<le> b - Suc a" "Suc a < b \<longrightarrow> 1 \<le> n"
      and ch: "\<forall>k. 1 \<le> k \<and> k < n \<longrightarrow> changed ((full_pass fd ^^ k) s')"
      and out: "if Suc a < b \<and> \<not> changed ((full_pass fd ^^ n) s') then out = [Converged (Suc a + n)]
            else n = b - Suc a \<and> out = (if Suc a < b \<and> b = mx then [NotConverged mx] else [])"
      by blast
    let ?pre = "if a = mx - 1 then [NotConverged mx] else []"
    have sw: "(full_pass fd ^^ k) s' = (full_pass fd ^^ Suc k) s" for k
      by (simp add: s'_def funpow_swap1)
    have res: "iterate fd mx [a ..< b] s = ((full_pass fd ^^ Suc n) s, ?pre @ out, Suc n)"
      using True it by (simp add: upt s'_def [symmetric] Let_def sw)
    have chs: "\<forall>k. 1 \<le> k \<and> k < Suc n \<longrightarrow> changed ((full_pass fd ^^ k) s)"
    proof (intro allI impI)
      fix k assume k: "1 \<le> k \<and> k < Suc n"
      show "changed ((full_pass fd ^^ k) s)"
      proof (cases "k = 1")
        case True
        then show ?thesis using \<open>changed s'\<close> by (simp add: s'_def)
      next
        case False
        then obtain k' where k': "k = Suc k'" "1 \<le> k'" "k' < n" using k by (cases k) auto
        then show ?thesis using ch sw [of k'] by auto
      qed
    qed
    have fin: "if a < b \<and> \<not> changed ((full_pass fd ^^ Suc n) s) then ?pre @ out = [Converged (a + Suc n)]
            else Suc n = b - a \<and> ?pre @ out = (if a < b \<and> b = mx then [NotConverged mx] else [])"
    proof (cases "Suc a < b")
      case True
      then have "a \<noteq> mx - 1" using Suc.prems(2) by simp
      then show ?thesis using out True ab sw [of n] by (auto split: if_splits)
    next
      case False
      then have b: "b = Suc a" using ab by simp
      then have n0: "n = 0" using n by simp
      have "changed ((full_pass fd ^^ Suc n) s)" using \<open>changed s'\<close> by (simp add: n0 s'_def)
      moreover have "out = []" using out False n0 by (simp split: if_splits)
      moreover have "a = mx - 1 \<longleftrightarrow> b = mx" using b Suc.prems(2) by auto
      ultimately show ?thesis using b n0 by simp
    qed
    have n': "Suc n \<le> b - a" "a < b \<longrightarrow> 1 \<le> Suc n" using n ab by auto
    show ?thesis
      by (rule exI [of _ "Suc n"], rule exI [of _ "?pre @ out"]) (intro conjI res chs fin n')
  qed
qed

lemma state_after_pos: "pos (state_after fd k)"
  by (induction k) (simp_all add: state_after_def pos_initial full_pass_pos)

section \<open>Flow direction: the claims\<close>

text \<open>
  C1. The claim: an interior cell with an elevation, none of whose valid neighbours is
  strictly lower, gets direction code 0; the interior cell of a flat 3 by 3 grid gets 0.
  The code starts the running maximum at minus infinity, so the first valid neighbour with
  a slope above minus infinity is always taken, whatever the sign of its slope. On the flat
  grid of elevation 5, in any float format, the slope to NE is 0, which exceeds minus
  infinity, and the seven later slopes do not exceed 0: the interior cell gets code 128.
  The function's own docstring says that 0 means "no flow (sink/flat area)".
\<close>

theorem d8_flat_grid_routes_north_east:
  "cell (calculate_flow_direction_d8 fmt flat3) (1, 1) = 128"
  by (simp add: d8_eval flat3_def)

text \<open>
  C5, as the claim states it: the selected neighbour attains the maximum of
  (centre - neighbour) / distance over the valid neighbours. The code compares the slopes
  it has computed in floating point. On the grid \<open>tie3\<close> the slope to SE, \<open>1 / sqrt 2\<close>, is
  greater than the slope \<open>q\<close> to E; but the float64 quotient of 1 by the float64 square root
  of 2 is \<open>q\<close> itself, so the two computed slopes are equal, E comes first in the table and
  the cell gets the code 1 of E, whose slope is not the maximum.
\<close>

theorem d8_float_tie_keeps_first:
  "cell (calculate_flow_direction_d8 binary64 tie3) (1, 1) = 1 \<and>
   neighbors ! 1 = (0, 1, 1) \<and>
   valid_neighbor tie3 1 1 (neighbors ! 1) \<and> valid_neighbor tie3 1 1 (neighbors ! 2) \<and>
   spec_slope tie3 1 1 (neighbors ! 1) < spec_slope tie3 1 1 (neighbors ! 2)"
  using tie3_code tie3_exact
  by (simp add: neighbors_def valid_neighbor_def in_bounds_def tie3_def of_rows_def)

text \<open>
  C5, amended. Whenever a cell gets a non-zero code, the cell has an elevation and the code
  is that of an entry of the neighbour table NE, E, SE, S, SW, W, NW, N which is valid (in
  bounds, not NaN) and whose computed slope (the difference centre minus neighbour rounded
  in the dtype of the raster, divided in float64 by the float64 distance) is above minus
  infinity, is exceeded by the computed slope of no valid neighbour, and is strictly
  greater than the computed slope of every valid neighbour earlier in the table, unless
  that slope is NaN.
\<close>

theorem d8_selects_first_steepest:
  assumes "cell (calculate_flow_direction_d8 fmt dem) (i, j) = code" and "code \<noteq> 0"
  shows "cell dem (i, j) \<noteq> NaN \<and>
         (\<exists>k. first_steepest fmt dem i j neighbors k \<and> snd (snd (neighbors ! k)) = code)"
proof -
  from assms have c: "cell dem (i, j) \<noteq> NaN"
    and code: "cell_direction fmt dem i j (cell dem (i, j)) = code"
    by (auto simp: d8_at split: if_splits)
  from cell_direction_cases [of fmt dem i j] code assms(2)
  show ?thesis using c by auto
qed

theorem d8_selects_first_steepest_witness:
  "cell (calculate_flow_direction_d8 binary64 dell3) (1, 1) = 4 \<and> (4::nat) \<noteq> 0 \<and>
   cell dell3 (1, 1) \<noteq> NaN \<and>
   (\<exists>k. first_steepest binary64 dell3 1 1 neighbors k \<and> snd (snd (neighbors ! k)) = 4)"
  using dell3_code d8_selects_first_steepest [OF dell3_code] by simp

text \<open>
  C10. Every cell of a direction field computed by the resolver holds one of the codes
  0, 1, 2, 4, 8, 16, 32, 64, 128; a border cell holds 0; and a cell with a non-zero code is
  an interior cell whose code is a key of the direction-to-offset table, with the
  downstream cell it names inside the grid. So on such a field neither the table lookup
  nor the bounds check of the propagator and of the extractor rejects a cell.
\<close>

theorem d8_codes_border_and_downstream:
  fixes fmt :: float_format and dem :: "fvalue ndarray"
  defines "fd \<equiv> calculate_flow_direction_d8 fmt dem"
  shows "cell fd (i, j) \<in> d8_codes \<and>
         (border fd i j \<longrightarrow> cell fd (i, j) = 0) \<and>
         (cell fd (i, j) \<noteq> 0 \<longrightarrow>
            interior fd i j \<and>
            (\<exists>dr dc. dir_to_offset (cell fd (i, j)) = Some (dr, dc) \<and>
               in_bounds (nrows fd) (ncols fd) (int i + dr) (int j + dc)))"
proof (cases "cell fd (i, j) = 0")
  case True
  then show ?thesis by (simp add: d8_codes_def)
next
  case False
  then have int: "interior dem i j"
    and code: "cell fd (i, j) = cell_direction fmt dem i j (cell dem (i, j))"
    by (auto simp: fd_def d8_at split: if_splits)
  from cell_direction_cases [of fmt dem i j] False code
  obtain k where k: "k < length neighbors" and ck: "cell fd (i, j) = snd (snd (neighbors ! k))"
    by (auto simp: first_steepest_def)
  note nk = neighbors_codes [OF k]
  have "cell fd (i, j) \<in> d8_codes" using nk ck by (auto simp: d8_codes_def)
  moreover have "\<not> border fd i j" using int by (auto simp: border_def interior_def fd_def)
  moreover have "interior fd i j" using int by (simp add: interior_def fd_def)
  moreover have "in_bounds (nrows fd) (ncols fd) (int i + fst (neighbors ! k))
      (int j + fst (snd (neighbors ! k)))"
    using nk int by (auto simp: in_bounds_def interior_def fd_def)
  ultimately show ?thesis using nk ck by auto
qed

theorem d8_codes_border_and_downstream_witness:
  "cell (calculate_flow_direction_d8 binary64 dell3) (1, 1) \<in> d8_codes \<and>
   border (calculate_flow_direction_d8 binary64 dell3) 0 2 \<and>
   cell (calculate_flow_direction_d8 binary64 dell3) (0, 2) = 0 \<and>
   cell (calculate_flow_direction_d8 binary64 dell3) (1, 1) \<noteq> 0 \<and>
   interior (calculate_flow_direction_d8 binary64 dell3) 1 1 \<and>
   (\<exists>dr dc. dir_to_offset (cell (calculate_flow_direction_d8 binary64 dell3) (1, 1)) = Some (dr, dc) \<and>
      in_bounds 3 3 (1 + dr) (1 + dc))"
proof -
  have h: "cell (calculate_flow_direction_d8 binary64 dell3) (1, 1) = 4"
    by (rule dell3_code)
  have b: "border (calculate_flow_direction_d8 binary64 dell3) 0 2"
    by (simp add: border_def dell3_def of_rows_def)
  have s: "nrows (calculate_flow_direction_d8 binary64 dell3) = 3"
    "ncols (calculate_flow_direction_d8 binary64 dell3) = 3"
    by (simp_all add: dell3_def of_rows_def)
  show ?thesis
    using d8_codes_border_and_downstream [of binary64 dell3 1 1]
      d8_codes_border_and_downstream [of binary64 dell3 0 2] h b s by simp
qed

section \<open>Flow accumulation: the claims\<close>

lemma sink1_unchanged: "\<not> changed (state_after sink1 1)"
  by (simp add: state_after_def full_pass_def sink1_def of_rows_def grid_cells_def
      initial_state_def visit_cell_def)

lemma pair2_routes: "routes_into pair2 (0, 0) (0, 1) \<and> routes_into pair2 (0, 1) (0, 0)"
  by (simp add: routes_into_def downstream_def pair2_def of_rows_def dir_to_offset_def in_bounds_def)

text \<open>
  C2. Let cell \<open>a\<close> push into cell \<open>b\<close> and \<open>b\<close> into \<open>a\<close>, both in the grid. Then, when
  the propagation loop ends, the runaway guard has fired for one of the two: that cell is
  marked as processed, which happens only in the branch taken when the value of the cell
  it pushes into exceeds 1000000, and that value does exceed 1000000 in the final state.
  Both cells of the returned field are at most 1000000.

  The reason: as long as neither cell is marked, each pass adds each of the two values to
  the other, so the smaller of them at least doubles per pass, while the guard stays silent
  only if a value is at most 1000000 when the pass starts; 50 passes leave no room for that.
\<close>

theorem mutual_pair_triggers_guard:
  assumes ab: "routes_into fd a b" and ba: "routes_into fd b a"
  shows "((processed (fst (accumulation_loop fd)) a \<and> flow_acc (fst (accumulation_loop fd)) b > 1000000) \<or>
          (processed (fst (accumulation_loop fd)) b \<and> flow_acc (fst (accumulation_loop fd)) a > 1000000)) \<and>
         cell (calculate_flow_accumulation fd) a \<le> 1000000 \<and>
         cell (calculate_flow_accumulation fd) b \<le> 1000000"
proof -
  let ?s = "fst (accumulation_loop fd)"
  have g: "guarded fd ?s"
    unfolding accumulation_loop_def by (intro iterate_guarded pos_initial guarded_initial)
  have "processed ?s a \<or> processed ?s b"
  proof (rule ccontr)
    assume "\<not> (processed ?s a \<or> processed ?s b)"
    then have na: "\<not> processed ?s a" and nb: "\<not> processed ?s b" by simp_all
    have "1 * 2 ^ (length [0 ..< max_iterations] - 1) \<le> (1000000::real)"
      by (rule cycle_doubles [OF ab ba pos_initial na [unfolded accumulation_loop_def]
            nb [unfolded accumulation_loop_def]])
         (simp_all add: initial_state_def max_iterations_def)
    then show False by (simp add: max_iterations_def)
  qed
  moreover have "processed ?s a \<Longrightarrow> flow_acc ?s b > 1000000"
    using g ab unfolding guarded_def routes_into_def by blast
  moreover have "processed ?s b \<Longrightarrow> flow_acc ?s a > 1000000"
    using g ba unfolding guarded_def routes_into_def by blast
  moreover have "cell (calculate_flow_accumulation fd) c \<le> 1000000" for c
    by (simp add: calculate_flow_accumulation_def clipped_def clip_def)
  ultimately show ?thesis by blast
qed

theorem mutual_pair_triggers_guard_witness:
  "routes_into pair2 (0, 0) (0, 1) \<and> routes_into pair2 (0, 1) (0, 0) \<and>
   ((processed (fst (accumulation_loop pair2)) (0, 0) \<and>
       flow_acc (fst (accumulation_loop pair2)) (0, 1) > 1000000) \<or>
    (processed (fst (accumulation_loop pair2)) (0, 1) \<and>
       flow_acc (fst (accumulation_loop pair2)) (0, 0) > 1000000)) \<and>
   cell (calculate_flow_accumulation pair2) (0, 0) \<le> 1000000 \<and>
   cell (calculate_flow_accumulation pair2) (0, 1) \<le> 1000000"
proof -
  have ab: "routes_into pair2 (0, 0) (0, 1)" and ba: "routes_into pair2 (0, 1) (0, 0)"
    using pair2_routes by simp_all
  show ?thesis using ab ba mutual_pair_triggers_guard [OF ab ba] by simp
qed

text \<open>
  C3. The loop makes at least one and at most 50 full passes; its final state is the state
  after exactly that many passes. Every pass before the last one changed some destination
  by more than 0.1, so the loop stops after the first pass that did not. If the last pass
  changed nothing, the loop prints the convergence line with the number of passes. If the
  last pass did change something, then all 50 passes were made, the warning is printed, and
  the function still returns: in both cases the result is the final accumulation array
  clipped into the interval from 0 to 1000000.
\<close>

theorem accumulation_passes_and_stop:
  fixes fd :: "nat ndarray"
  defines "n \<equiv> passes_made fd"
  shows "1 \<le> n \<and> n \<le> 50 \<and>
         fst (accumulation_loop fd) = state_after fd n \<and>
         (\<forall>k. 1 \<le> k \<and> k < n \<longrightarrow> changed (state_after fd k)) \<and>
         (\<not> changed (state_after fd n) \<longrightarrow> printed fd = [Converged n]) \<and>
         (changed (state_after fd n) \<longrightarrow> n = 50 \<and> printed fd = [NotConverged 50]) \<and>
         calculate_flow_accumulation fd = clipped fd (state_after fd n)"
proof -
  define a :: nat where "a = 0"
  define b :: nat where "b = 50"
  have le: "a \<le> b" "b \<le> b" by (simp_all add: a_def b_def)
  from iterate_upt [OF le, of fd initial_state]
  obtain m out where r: "iterate fd b [a ..< b] initial_state = ((full_pass fd ^^ m) initial_state, out, m)"
    and r1: "m \<le> b - a" "a < b \<longrightarrow> 1 \<le> m"
    and r2: "\<forall>k. 1 \<le> k \<and> k < m \<longrightarrow> changed ((full_pass fd ^^ k) initial_state)"
    and r3: "if a < b \<and> \<not> changed ((full_pass fd ^^ m) initial_state)
             then out = [Converged (a + m)]
             else m = b - a \<and> out = (if a < b \<and> b = b then [NotConverged b] else [])"
    by blast
  have it: "accumulation_loop fd = (state_after fd m, out, m)"
    using r by (simp add: accumulation_loop_def state_after_def max_iterations_def a_def b_def)
  have m: "m \<le> 50" "1 \<le> m" using r1 by (simp_all add: a_def b_def)
  have ch: "\<forall>k. 1 \<le> k \<and> k < m \<longrightarrow> changed (state_after fd k)"
    using r2 by (simp add: state_after_def)
  have out: "if \<not> changed (state_after fd m) then out = [Converged m]
              else m = 50 \<and> out = [NotConverged 50]"
    using r3 by (simp add: state_after_def a_def b_def split: if_splits)
  have n: "n = m" by (simp add: n_def passes_made_def it)
  show ?thesis
    using m ch out unfolding n
    by (simp add: it printed_def calculate_flow_accumulation_def split: if_splits)
qed

theorem accumulation_passes_and_stop_witness:
  "\<not> changed (state_after sink1 1) \<and> passes_made sink1 = 1 \<and> printed sink1 = [Converged 1] \<and>
   calculate_flow_accumulation sink1 = clipped sink1 (state_after sink1 1)"
proof -
  note r = accumulation_passes_and_stop [of sink1]
  have "passes_made sink1 \<le> 1"
  proof (rule ccontr)
    assume "\<not> passes_made sink1 \<le> 1"
    then have "1 \<le> (1::nat) \<and> 1 < passes_made sink1" by simp
    with r have "changed (state_after sink1 1)" by blast
    with sink1_unchanged show False by simp
  qed
  with r have n: "passes_made sink1 = 1" by simp
  show ?thesis using r sink1_unchanged unfolding n by simp
qed

text \<open>
  C4. The returned field has the shape of the direction field, and each of its cells is
  at least 1 and at most 1000000: every value starts at 1, a pass only adds values that
  are at least 1, and the final clip bounds the result from above.
\<close>

theorem accumulation_bounds:
  "nrows (calculate_flow_accumulation fd) = nrows fd \<and>
   ncols (calculate_flow_accumulation fd) = ncols fd \<and>
   (\<forall>i < nrows fd. \<forall>j < ncols fd.
      1 \<le> cell (calculate_flow_accumulation fd) (i, j) \<and>
      cell (calculate_flow_accumulation fd) (i, j) \<le> 1000000)"
proof -
  have "pos (fst (accumulation_loop fd))"
    unfolding accumulation_loop_def by (intro iterate_pos pos_initial)
  then have "1 \<le> flow_acc (fst (accumulation_loop fd)) c" for c by (rule posD)
  then have "1 \<le> clip (flow_acc (fst (accumulation_loop fd)) c) 0 1000000 \<and>
      clip (flow_acc (fst (accumulation_loop fd)) c) 0 1000000 \<le> 1000000" for c
    unfolding clip_def by (simp add: le_max_iff_disj)
  then show ?thesis
    by (simp add: calculate_flow_accumulation_def clipped_def)
qed

theorem accumulation_bounds_witness:
  "(0::nat) < nrows chain2 \<and> (1::nat) < ncols chain2 \<and>
   1 \<le> cell (calculate_flow_accumulation chain2) (0, 1) \<and>
   cell (calculate_flow_accumulation chain2) (0, 1) \<le> 1000000"
proof -
  have h: "(0::nat) < nrows chain2" "(1::nat) < ncols chain2"
    by (simp_all add: chain2_def of_rows_def)
  show ?thesis using h accumulation_bounds [of chain2] by blast
qed

section \<open>Flow vectors: the claim\<close>

lemma extract_loop_filter:
  assumes "\<And>ls c. c \<in> set cs \<Longrightarrow> step ls c = Inr (if q c then ls @ [f c] else ls)"
  shows "extract_loop step ls cs = Inr (ls @ map f (filter q cs))"
  using assms by (induction cs arbitrary: ls) simp_all

lemma downstream_SomeD:
  assumes "downstream fd (i, j) = Some d"
  obtains dr dc where "cell fd (i, j) \<noteq> 0" "dir_to_offset (cell fd (i, j)) = Some (dr, dc)"
    "in_bounds (nrows fd) (ncols fd) (int i + dr) (int j + dc)"
    "d = (nat (int i + dr), nat (int j + dc))"
  using assms unfolding downstream_def
  by (auto split: if_splits option.splits prod.splits)

lemma extract_cell_routed:
  assumes "fst c < nrows acc_field" "snd c < ncols acc_field"
    and "cell flow_dir c \<noteq> 0 \<longrightarrow> downstream flow_dir c \<noteq> None"
  shows "extract_cell rio_xy transform flow_dir acc_field threshold ls c =
     Inr (if emits flow_dir acc_field threshold c
          then ls @ [flow_vector_of rio_xy flow_dir acc_field transform c] else ls)"
proof (cases c)
  case (Pair i j)
  show ?thesis
  proof (cases "cell flow_dir (i, j) = 0")
    case True
    then show ?thesis by (simp add: Pair extract_cell_def emits_def)
  next
    case False
    with assms(3) obtain d where d: "downstream flow_dir (i, j) = Some d" by (auto simp: Pair)
    from downstream_SomeD [OF d] obtain dr dc
      where off: "dir_to_offset (cell flow_dir (i, j)) = Some (dr, dc)"
        and inb: "in_bounds (nrows flow_dir) (ncols flow_dir) (int i + dr) (int j + dc)"
        and dd: "d = (nat (int i + dr), nat (int j + dc))" by blast
    have nn: "0 \<le> int i + dr" "0 \<le> int j + dc"
      using inb by (simp_all add: in_bounds_def)
    have ij: "i < nrows acc_field" "j < ncols acc_field" using assms(1,2) by (simp_all add: Pair)
    show ?thesis
      using False off inb ij
      by (simp add: Pair extract_cell_def emits_def flow_vector_of_def d dd nn Let_def not_less)
  qed
qed

lemma distinct_grid_cells: "distinct (grid_cells rows cols)"
  by (simp add: grid_cells_def distinct_product)

lemma grid_1_2: "grid_cells (Suc 0) 2 = [(0, 0), (0, 1)]"
  by (simp add: grid_cells_def numeral_2_eq_2)

lemma pair2_shape: "nrows pair2 = 1" "ncols pair2 = 2"
  by (simp_all add: pair2_def of_rows_def)

lemma pair2_routed:
  "\<forall>c \<in> set (grid_cells (nrows pair2) (ncols pair2)).
     cell pair2 c \<noteq> 0 \<longrightarrow> downstream pair2 c \<noteq> None"
  by (simp add: pair2_shape grid_1_2)
     (simp add: pair2_def of_rows_def downstream_def dir_to_offset_def in_bounds_def)

lemma pair2_emits:
  "filter (emits pair2 acc57 6) (grid_cells (nrows pair2) (ncols pair2)) = [(0, 1)]"
  by (simp add: pair2_shape grid_1_2 emits_def) (simp add: pair2_def acc57_def of_rows_def)

lemma pair2_vector:
  "flow_vector_of cell_xy pair2 acc57 () (0, 1) =
     \<lparr>line_from = (3 / 2, - 1 / 2), line_to = (1 / 2, - 1 / 2),
      accumulation = 7, direction = 16\<rparr>"
  by (simp add: flow_vector_of_def cell_xy_def downstream_def pair2_def acc57_def of_rows_def
      dir_to_offset_def in_bounds_def)

text \<open>
  C9. Let the accumulation field have the shape of the direction field, and let every cell
  with a non-zero code have a downstream cell (its code is in the offset table and the cell
  it names is in the grid). Then the extractor returns, in row-major order of the cells
  (a list without repetition), exactly one flow vector for each cell whose code is non-zero
  and whose accumulation is at least the threshold, and nothing else: the vector's
  \<open>from\<close> is the transform of the cell, its \<open>to\<close> the transform of the downstream cell, its
  weight the accumulation of the cell, its direction the code of the cell. The function only
  reads the two fields: its result is a list, and no array is written.
\<close>

theorem extract_flow_vectors_exact:
  assumes shape: "nrows acc_field = nrows flow_dir" "ncols acc_field = ncols flow_dir"
    and routed: "\<forall>c \<in> set (grid_cells (nrows flow_dir) (ncols flow_dir)).
                   cell flow_dir c \<noteq> 0 \<longrightarrow> downstream flow_dir c \<noteq> None"
  shows "extract_flow_vectors rio_xy flow_dir acc_field transform dem_shape threshold =
           Inr (map (flow_vector_of rio_xy flow_dir acc_field transform)
                  (filter (emits flow_dir acc_field threshold)
                     (grid_cells (nrows flow_dir) (ncols flow_dir)))) \<and>
         distinct (grid_cells (nrows flow_dir) (ncols flow_dir))"
proof -
  have "extract_loop (extract_cell rio_xy transform flow_dir acc_field threshold) []
          (grid_cells (nrows flow_dir) (ncols flow_dir)) =
        Inr ([] @ map (flow_vector_of rio_xy flow_dir acc_field transform)
                  (filter (emits flow_dir acc_field threshold)
                     (grid_cells (nrows flow_dir) (ncols flow_dir))))"
  proof (rule extract_loop_filter)
    fix ls c assume c: "c \<in> set (grid_cells (nrows flow_dir) (ncols flow_dir))"
    then have "fst c < nrows acc_field" "snd c < ncols acc_field"
      unfolding shape by (simp_all add: in_grid_cells)
    moreover have "cell flow_dir c \<noteq> 0 \<longrightarrow> downstream flow_dir c \<noteq> None"
      using routed c by blast
    ultimately show "extract_cell rio_xy transform flow_dir acc_field threshold ls c =
        Inr (if emits flow_dir acc_field threshold c
             then ls @ [flow_vector_of rio_xy flow_dir acc_field transform c] else ls)"
      by (rule extract_cell_routed)
  qed
  then have "extract_flow_vectors rio_xy flow_dir acc_field transform dem_shape threshold =
           Inr (map (flow_vector_of rio_xy flow_dir acc_field transform)
                  (filter (emits flow_dir acc_field threshold)
                     (grid_cells (nrows flow_dir) (ncols flow_dir))))"
    unfolding extract_flow_vectors_def by simp
  then show ?thesis using distinct_grid_cells by blast
qed

theorem extract_flow_vectors_exact_witness:
  "nrows acc57 = nrows pair2 \<and> ncols acc57 = ncols pair2 \<and>
   grid_cells (nrows pair2) (ncols pair2) = [(0, 0), (0, 1)] \<and>
   downstream pair2 (0, 0) = Some (0, 1) \<and> downstream pair2 (0, 1) = Some (0, 0) \<and>
   extract_flow_vectors cell_xy pair2 acc57 () (1, 2) 6 =
     Inr [\<lparr>line_from = (3 / 2, - 1 / 2), line_to = (1 / 2, - 1 / 2),
           accumulation = 7, direction = 16\<rparr>]"
proof -
  have sh: "nrows acc57 = nrows pair2" "ncols acc57 = ncols pair2"
    by (simp_all add: acc57_def pair2_def of_rows_def)
  from extract_flow_vectors_exact [OF sh pair2_routed, of cell_xy "()" "(1, 2)" 6]
  have "extract_flow_vectors cell_xy pair2 acc57 () (1, 2) 6 =
      Inr [flow_vector_of cell_xy pair2 acc57 () (0, 1)]"
    unfolding pair2_emits by simp
  moreover have "grid_cells (nrows pair2) (ncols pair2) = [(0, 0), (0, 1)]"
    by (simp add: pair2_shape grid_1_2)
  moreover have "downstream pair2 (0, 0) = Some (0, 1)" "downstream pair2 (0, 1) = Some (0, 0)"
    using pair2_routes by (simp_all add: routes_into_def)
  ultimately show ?thesis unfolding pair2_vector using sh by blast
qed

section \<open>Even sampling: the claim\<close>

lemma get_items_in_range:
  "\<forall>i \<in> set idx. i < length xs \<Longrightarrow> get_items xs (map int idx) = Inr (map (\<lambda>i. xs ! i) idx)"
  by (induction idx) (simp_all add: get_item_def)

text \<open>
  The spacing of the samples. With \<open>N = len(items) - 1\<close>, \<open>D = max_count - 1\<close> and
  \<open>N * D \<le> 2 ^ 51\<close>, the float64 step \<open>s\<close> is at least 1 and within \<open>2 ^ - 53\<close> of \<open>N / D\<close> in
  relative terms; so the products \<open>k * s\<close> for \<open>k < D\<close> stay at or below \<open>N - 1\<close>, and two
  consecutive ones are far enough apart for their rounded values to have different integer
  parts.
\<close>

lemma spacing_arith:
  fixes Nr Dr u :: real
  assumes D1: "1 \<le> Dr" and DN: "Dr + 1 \<le> Nr" and u0: "0 \<le> u" and NDu: "Nr * Dr * u \<le> 1 / 4"
  shows "(Dr - 1) * (Nr / Dr + Nr / Dr * u) \<le> Nr - 1"
    and "3 * Nr * u + 1 \<le> Nr / Dr - Nr / Dr * u"
proof -
  have Nu: "Nr * u \<le> Nr * Dr * u"
  proof -
    have "Nr * u * 1 \<le> Nr * u * Dr" using D1 DN u0 by (intro mult_left_mono) simp_all
    then show ?thesis by (simp add: mult_ac)
  qed
  have Nu0: "0 \<le> Nr * u" using D1 DN u0 by simp
  have pos: "0 < Dr" using D1 by linarith
  have "(Dr - 1) * (Nr + Nr * u) \<le> (Nr - 1) * Dr"
  proof -
    have "(Dr - 1) * (Nr + Nr * u) = Nr * Dr + Nr * Dr * u - Nr - Nr * u"
      by (simp add: algebra_simps)
    moreover have "(Nr - 1) * Dr = Nr * Dr - Dr" by (simp add: algebra_simps)
    ultimately show ?thesis using NDu Nu0 DN by linarith
  qed
  moreover have "(Dr - 1) * (Nr / Dr + Nr / Dr * u) = (Dr - 1) * (Nr + Nr * u) / Dr"
    using pos by (simp add: field_simps)
  ultimately show "(Dr - 1) * (Nr / Dr + Nr / Dr * u) \<le> Nr - 1"
    using pos by (simp add: pos_divide_le_eq)
  have "(3 * Nr * u + 1) * Dr \<le> Nr - Nr * u"
  proof -
    have "(3 * Nr * u + 1) * Dr = 3 * (Nr * Dr * u) + Dr" by (simp add: algebra_simps)
    then show ?thesis using NDu Nu DN by linarith
  qed
  moreover have "Nr / Dr - Nr / Dr * u = (Nr - Nr * u) / Dr"
    using pos by (simp add: field_simps)
  ultimately show "3 * Nr * u + 1 \<le> Nr / Dr - Nr / Dr * u"
    using pos by (simp add: pos_le_divide_eq)
qed

lemma linspace_spacing:
  fixes N D k :: nat
  assumes D1: "1 \<le> D" and DN: "D < N" and ND: "N * D \<le> 2 ^ 51" and k: "k < D"
  defines "s \<equiv> f64 (real N / real D)"
  shows "1 \<le> s"
    and "real k * s \<le> real N - 1"
    and "real_of_int \<lfloor>f64 (f64 (real k * s))\<rfloor> + 1 \<le> real (Suc k) * s"
proof -
  define u :: real where "u = 1 / 2 ^ 53"
  define Nr where "Nr = real N"
  define Dr where "Dr = real D"
  define t where "t = Nr / Dr"
  have Dr1: "1 \<le> Dr" using D1 by (simp add: Dr_def)
  have DNr: "Dr + 1 \<le> Nr" using DN unfolding Dr_def Nr_def by linarith
  have u0: "0 \<le> u" "u \<le> 1" by (simp_all add: u_def)
  have NDr: "Nr * Dr \<le> 2 ^ 51"
  proof -
    have "real (N * D) \<le> real (2 ^ 51)" using ND by (rule of_nat_mono)
    then show ?thesis by (simp add: Nr_def Dr_def)
  qed
  have NDu: "Nr * Dr * u \<le> 1 / 4"
  proof -
    have "Nr * Dr * u \<le> 2 ^ 51 * u" using NDr u0 by (intro mult_right_mono) simp_all
    then show ?thesis by (simp add: u_def)
  qed
  have t1: "1 \<le> t" using Dr1 DNr by (simp add: t_def)
  have s_t: "s = f64 t" by (simp add: s_def t_def Nr_def Dr_def)
  have s1: "1 \<le> s"
  proof -
    have "real 1 \<le> f64 t" by (rule f64_ge_nat) (use t1 in simp_all)
    then show ?thesis by (simp add: s_t)
  qed
  show "1 \<le> s" by (rule s1)
  have serr: "\<bar>s - t\<bar> \<le> t * u" unfolding s_t u_def using t1 by (rule f64_error)
  have arith: "(Dr - 1) * (t + t * u) \<le> Nr - 1" "3 * Nr * u + 1 \<le> t - t * u"
    unfolding t_def using spacing_arith [OF Dr1 DNr u0(1) NDu] by simp_all
  have kD: "real k \<le> Dr - 1" using k unfolding Dr_def by linarith
  have A: "real k * s \<le> Nr - 1"
  proof -
    have "real k * s \<le> (Dr - 1) * s" using kD s1 by (intro mult_right_mono) simp_all
    also have "\<dots> \<le> (Dr - 1) * (t + t * u)"
      using serr Dr1 by (intro mult_left_mono) simp_all
    finally show ?thesis using arith(1) by linarith
  qed
  then show "real k * s \<le> real N - 1" by (simp add: Nr_def)
  show "real_of_int \<lfloor>f64 (f64 (real k * s))\<rfloor> + 1 \<le> real (Suc k) * s"
  proof (cases "k = 0")
    case True
    then show ?thesis using s1 by simp
  next
    case False
    define a where "a = real k * s"
    have k1: "1 \<le> real k" using False by simp
    have a1: "1 \<le> a"
    proof -
      have "1 * 1 \<le> real k * s" using k1 s1 by (intro mult_mono) simp_all
      then show ?thesis by (simp add: a_def)
    qed
    have aN: "a \<le> Nr" using A by (simp add: a_def)
    have "\<bar>f64 a - a\<bar> \<le> a * u" unfolding u_def by (rule f64_error [OF a1])
    then have e1: "f64 a \<le> a + a * u" by linarith
    have "real 1 \<le> f64 a" by (rule f64_ge_nat) (use a1 in simp_all)
    then have fa1: "1 \<le> f64 a" by simp
    have "\<bar>f64 (f64 a) - f64 a\<bar> \<le> f64 a * u" unfolding u_def by (rule f64_error [OF fa1])
    then have e2: "f64 (f64 a) \<le> f64 a + f64 a * u" by linarith
    have au: "a * u \<le> Nr * u" using aN u0 by (intro mult_right_mono) simp_all
    have fau: "f64 a * u \<le> (a + a * u) * u" using e1 u0 by (intro mult_right_mono) simp_all
    have auu: "a * u * u \<le> a * u * 1" using a1 u0 by (intro mult_left_mono) simp_all
    have "f64 (f64 a) \<le> a + 3 * (Nr * u)"
    proof -
      have "(a + a * u) * u = a * u + a * u * u" by (simp add: algebra_simps)
      then show ?thesis using e1 e2 au fau auu by linarith
    qed
    moreover have "real_of_int \<lfloor>f64 (f64 a)\<rfloor> \<le> f64 (f64 a)" by simp
    moreover have "t - t * u \<le> s" using serr by linarith
    moreover have "real (Suc k) * s = a + s" by (simp add: a_def algebra_simps)
    ultimately show ?thesis using arith(2) unfolding a_def [symmetric] by linarith
  qed
qed

lemma nat_bound53:
  fixes N D :: nat
  assumes "1 \<le> D" "N * D \<le> 2 ^ 51"
  shows "N < 2 ^ 53"
proof -
  have "N = N * 1" by simp
  also have "\<dots> \<le> N * D" using assms(1) by (rule mult_le_mono2)
  also have "\<dots> \<le> 2 ^ 51" by (rule assms(2))
  also have "\<dots> < 2 ^ 53" by simp
  finally show ?thesis .
qed

lemma linspace_sample_last: "1 \<le> D \<Longrightarrow> linspace_sample a b (Suc D) D = b"
  by (simp add: linspace_sample_def Let_def)

lemma linspace_sample_inner:
  fixes N D k :: nat
  assumes D1: "1 \<le> D" and DN: "D < N" and ND: "N * D \<le> 2 ^ 51" and k: "k < D"
  shows "linspace_sample (f64 (of_int 0)) (f64 (of_int (int N))) (Suc D) k =
           f64 (f64 (real k * f64 (real N / real D)))"
proof -
  have N: "N < 2 ^ 53" using D1 ND by (rule nat_bound53)
  then have D: "D < 2 ^ 53" and K: "k < 2 ^ 53" using DN k by simp_all
  have s: "1 \<le> f64 (real N / real D)"
    using linspace_spacing(1) [OF D1 DN ND k] .
  have ne: "f64 (real N / real D) \<noteq> 0" using s by linarith
  have km: "k \<noteq> D" "0 < D" using k by simp_all
  show ?thesis
    using ne km
    by (simp add: linspace_sample_def Let_def f64_nat [OF N] f64_nat [OF D] f64_nat [OF K])
qed

lemma linspace_indices:
  fixes N D k :: nat
  assumes D1: "1 \<le> D" and DN: "D < N" and ND: "N * D \<le> 2 ^ 51" and k: "k < D"
  defines "y \<equiv> \<lambda>k. \<lfloor>linspace_sample (f64 (of_int 0)) (f64 (of_int (int N))) (Suc D) k\<rfloor>"
  shows "y D = int N"
    and "y k = \<lfloor>f64 (f64 (real k * f64 (real N / real D)))\<rfloor>"
    and "0 \<le> y k" and "y k < int N" and "y k < y (Suc k)"
proof -
  define s where "s = f64 (real N / real D)"
  have N: "N < 2 ^ 53" using D1 ND by (rule nat_bound53)
  have N1: "N - 1 < 2 ^ 53" using N by simp
  have s1: "1 \<le> s" unfolding s_def using linspace_spacing(1) [OF D1 DN ND k] .
  have inner: "y j = \<lfloor>f64 (f64 (real j * s))\<rfloor>" if "j < D" for j
    unfolding y_def s_def using linspace_sample_inner [OF D1 DN ND that] by simp
  show last: "y D = int N"
    unfolding y_def by (simp add: linspace_sample_last [OF D1] f64_nat [OF N])
  show "y k = \<lfloor>f64 (f64 (real k * f64 (real N / real D)))\<rfloor>"
    using inner [OF k] by (simp add: s_def)
  have ks0: "0 \<le> real j * s" for j using s1 by simp
  have nonneg: "0 \<le> f64 (f64 (real j * s))" for j
    by (intro f64_nonneg ks0)
  show y0: "0 \<le> y k" unfolding inner [OF k] using nonneg [of k] by simp
  have upper: "f64 (f64 (real j * s)) \<le> real (N - 1)" if j: "j < D" for j
  proof -
    have "real j * s \<le> real N - 1" unfolding s_def using linspace_spacing(2) [OF D1 DN ND j] .
    then have le: "real j * s \<le> real (N - 1)" using DN by (simp add: of_nat_diff)
    have "f64 (real j * s) \<le> real (N - 1)" using ks0 le N1 by (rule f64_le_nat)
    with f64_nonneg [OF ks0] show ?thesis using N1 by (rule f64_le_nat)
  qed
  have yle: "y j \<le> int (N - 1)" if j: "j < D" for j
  proof -
    have "\<lfloor>f64 (f64 (real j * s))\<rfloor> \<le> \<lfloor>real (N - 1)\<rfloor>" using upper [OF j] by (rule floor_mono)
    then show ?thesis by (simp add: inner [OF j])
  qed
  show yN: "y k < int N" using yle [OF k] DN by linarith
  show "y k < y (Suc k)"
  proof (cases "Suc k < D")
    case False
    then have "Suc k = D" using k by simp
    then show ?thesis using last yN by simp
  next
    case True
    define n where "n = nat (y k + 1)"
    have rn: "real n = real_of_int (y k) + 1" using y0 by (simp add: n_def)
    have step: "real n \<le> real (Suc k) * s"
      unfolding rn inner [OF k] s_def using linspace_spacing(3) [OF D1 DN ND k] .
    have "real (Suc k) * s \<le> real N - 1"
      unfolding s_def using linspace_spacing(2) [OF D1 DN ND True] .
    then have "real n \<le> real (N - 1)" using step DN by (simp add: of_nat_diff)
    then have "n \<le> N - 1" by (simp only: of_nat_le_iff)
    then have n: "n < 2 ^ 53" using N1 by simp
    have "real n \<le> f64 (real (Suc k) * s)" using step n by (rule f64_ge_nat)
    then have "real n \<le> f64 (f64 (real (Suc k) * s))" using n by (rule f64_ge_nat)
    then have "real_of_int (y k + 1) \<le> f64 (f64 (real (Suc k) * s))" using rn by simp
    then have "y k + 1 \<le> \<lfloor>f64 (f64 (real (Suc k) * s))\<rfloor>" by (simp only: le_floor_iff)
    then show ?thesis using inner [OF True] by simp
  qed
qed

lemma upt4: "[0 ..< 4] = [0, 1, 2, 3]"
  by (simp add: upt_rec)

lemma linspace_int_0_4_4: "linspace_int 0 4 4 = [0, 1, 2, 4]"
proof -
  define s where "s = f64 (4 / 3)"
  have "\<bar>s - 4 / 3\<bar> \<le> (4 / 3) / 9007199254740992"
    unfolding s_def by (rule f64_error_num) simp
  then have s: "4 / 3 - 1 / 1000 \<le> s" "s \<le> 4 / 3 + 1 / 1000" by linarith+
  have y: "\<lfloor>linspace_sample (f64 (of_int 0)) (f64 (of_int (int 4))) (Suc 3) k\<rfloor> =
             \<lfloor>f64 (f64 (real k * s))\<rfloor>" if "k < 3" for k
    unfolding s_def using linspace_indices(2) [of 3 4 k] that by simp
  have y3: "\<lfloor>linspace_sample (f64 (of_int 0)) (f64 (of_int (int 4))) (Suc 3) 3\<rfloor> = int 4"
    using linspace_indices(1) [of 3 4 0] by simp
  have 1: "\<lfloor>f64 (f64 (real 1 * s))\<rfloor> = int 1" by (rule f64_twice_floor) (use s in simp_all)
  have 2: "\<lfloor>f64 (f64 (real 2 * s))\<rfloor> = int 2" by (rule f64_twice_floor) (use s in simp_all)
  have 0: "\<lfloor>f64 (f64 (real 0 * s))\<rfloor> = 0" by simp
  show ?thesis
    using y [of 0] y [of 1] y [of 2] y3 0 1 2 by (simp add: linspace_int_def upt4)
qed

lemma linspace_int_single: "linspace_int 0 2 (Suc 0) = [0]"
  by (simp add: linspace_int_def linspace_sample_def Let_def f64_numeral)

text \<open>
  The rounding of the products is visible in the indices: with 31 items and
  \<open>max_count = 23\<close> the float64 step is just below 30/22, the position of index 11 is
  \<open>15 - 5 / 2 ^ 52\<close> and the sample is the item 14, where the exact position is 15.
\<close>

lemma linspace_int_0_30_23:
  "linspace_int 0 30 23 ! 11 = 14 \<and> \<lfloor>real 11 * (real 30 / real 22)\<rfloor> = 15"
proof -
  have "\<lfloor>linspace_sample (f64 (of_int 0)) (f64 (of_int (int 30))) (Suc 22) 11\<rfloor> =
        \<lfloor>f64 (f64 (real 11 * f64 (real 30 / real 22)))\<rfloor>"
    by (rule linspace_indices(2)) simp_all
  then have "\<lfloor>linspace_sample (f64 (of_int 0)) (f64 (of_int 30)) 23 11\<rfloor> = 14"
    by (simp add: f64_15_11 f64_below_15 f64_below_15_fixed)
  then show ?thesis by (simp add: linspace_int_def)
qed

lemma transp_less_nat: "transp ((<) :: nat \<Rightarrow> nat \<Rightarrow> bool)"
  by (rule transpI) simp

text \<open>
  C7, as the claim states it: the positions are rounded to the nearest index, and the first
  and the last element are both returned. On five items and \<open>max_count = 4\<close> the evenly spaced
  positions are 0, 4/3, 8/3, 4; numpy's integer dtype rounds them down to 0, 1, 2, 4, while
  rounding to nearest gives 0, 1, 3, 4. With \<open>max_count = 1\<close> the only sample is the first
  element, so the last one is not returned.
\<close>

theorem sample_evenly_not_nearest:
  "sample_evenly [10, 11, 12, 13, 14 :: nat] 4 = Inr [10, 11, 12, 14] \<and>
   spec_sample_evenly [10, 11, 12, 13, 14 :: nat] 4 = [10, 11, 13, 14] \<and>
   sample_evenly [10, 11, 12 :: nat] 1 = Inr [10]"
  by (simp add: sample_evenly_def linspace_int_0_4_4 linspace_int_single spec_sample_evenly_def
      upt4 get_item_def round_def)

text \<open>
  C7, amended. If the list has at most \<open>max_count\<close> items it is returned unchanged. If
  \<open>0 \<le> max_count < len(items)\<close> and \<open>max_count * len(items) \<le> 2 ^ 51\<close>, the function returns
  the items at \<open>max_count\<close> indices which are strictly increasing and inside the list; from
  one sample on the first index is 0; from two samples on the last index is
  \<open>len(items) - 1\<close>, and the index of rank \<open>k\<close> before the last is the float64 product of
  \<open>k\<close> by the float64 quotient \<open>(len(items) - 1) / (max_count - 1)\<close>, rounded down. So the
  length of the result is the smaller of \<open>len(items)\<close> and \<open>max_count\<close>, and no index is out
  of range.
\<close>

theorem sample_evenly_floor_spaced:
  fixes items :: "'a list"
  shows "(int (length items) \<le> max_count \<longrightarrow> sample_evenly items max_count = Inr items) \<and>
         (0 \<le> max_count \<and> max_count < int (length items) \<and>
          max_count * int (length items) \<le> 2 ^ 51 \<longrightarrow>
            (\<exists>idx. sample_evenly items max_count = Inr (map (\<lambda>i. items ! i) idx) \<and>
               length idx = nat max_count \<and>
               sorted_wrt (<) idx \<and> (\<forall>i \<in> set idx. i < length items) \<and>
               (1 \<le> max_count \<longrightarrow> idx ! 0 = 0) \<and>
               (2 \<le> max_count \<longrightarrow> idx ! (nat max_count - 1) = length items - 1 \<and>
                  (\<forall>k < nat max_count - 1.
                     int (idx ! k) =
                       \<lfloor>f64 (f64 (real k * f64 (real (length items - 1) /
                                                real (nat max_count - 1))))\<rfloor>))))"
proof (intro conjI impI)
  assume "int (length items) \<le> max_count"
  then show "sample_evenly items max_count = Inr items" by (simp add: sample_evenly_def)
next
  assume a: "0 \<le> max_count \<and> max_count < int (length items) \<and>
             max_count * int (length items) \<le> 2 ^ 51"
  define m where "m = nat max_count"
  define n where "n = length items - 1"
  have pos: "0 < length items" using a by linarith
  have mn: "m \<le> n" "max_count = int m" "int (length items) - 1 = int n" "length items = Suc n"
  proof -
    show "max_count = int m" using a by (simp add: m_def)
    show "length items = Suc n" using pos by (simp add: n_def)
    then show "int (length items) - 1 = int n" by simp
    show "m \<le> n" using a pos unfolding m_def n_def by linarith
  qed
  have size: "m * Suc n \<le> 2 ^ 51"
  proof -
    have "int m * int (Suc n) \<le> 2 ^ 51" using a unfolding mn(2) mn(4) by blast
    then have "int (m * Suc n) \<le> int (2 ^ 51)" by (simp only: of_nat_mult of_nat_power of_nat_numeral)
    then show ?thesis by (simp only: of_nat_le_iff)
  qed
  have se: "sample_evenly items max_count = get_items items (linspace_int 0 (int n) m)"
  proof -
    have "\<not> int (length items) \<le> max_count" "\<not> max_count < 0" using a by simp_all
    then show ?thesis
      unfolding sample_evenly_def by (simp add: m_def [symmetric] mn(3))
  qed
  consider "m = 0" | "m = 1" | "2 \<le> m" by linarith
  then show "\<exists>idx. sample_evenly items max_count = Inr (map (\<lambda>i. items ! i) idx) \<and>
               length idx = nat max_count \<and>
               sorted_wrt (<) idx \<and> (\<forall>i \<in> set idx. i < length items) \<and>
               (1 \<le> max_count \<longrightarrow> idx ! 0 = 0) \<and>
               (2 \<le> max_count \<longrightarrow> idx ! (nat max_count - 1) = length items - 1 \<and>
                  (\<forall>k < nat max_count - 1.
                     int (idx ! k) =
                       \<lfloor>f64 (f64 (real k * f64 (real (length items - 1) /
                                                real (nat max_count - 1))))\<rfloor>))"
  proof cases
    case 1
    then have "sample_evenly items max_count = Inr (map (\<lambda>i. items ! i) [])"
      by (simp add: se linspace_int_def)
    moreover have "max_count = 0" using 1 mn(2) by simp
    ultimately show ?thesis
      by (intro exI [of _ "[]"]) simp
  next
    case 2
    have "linspace_int 0 (int n) (Suc 0) = [0]"
      by (simp add: linspace_int_def linspace_sample_def Let_def)
    then have "sample_evenly items max_count = Inr (map (\<lambda>i. items ! i) [0])"
      using pos 2 by (simp add: se get_item_def)
    moreover have "max_count = 1" using 2 mn(2) by simp
    ultimately show ?thesis using pos
      by (intro exI [of _ "[0]"]) simp
  next
    case 3
    define D where "D = m - 1"
    have mD: "m = Suc D" using 3 by (simp add: D_def)
    have D1: "1 \<le> D" using 3 by (simp add: D_def)
    have DN: "D < n" using mn(1) 3 by (simp add: D_def)
    have ND: "n * D \<le> 2 ^ 51"
    proof -
      have "n * D \<le> Suc n * m" by (intro mult_le_mono) (simp_all add: D_def)
      then show ?thesis using size by (simp add: mult.commute)
    qed
    define y where
      "y k = \<lfloor>linspace_sample (f64 (of_int 0)) (f64 (of_int (int n))) (Suc D) k\<rfloor>" for k
    note ind = linspace_indices [OF D1 DN ND, folded y_def]
    have yD: "y D = int n" using ind(1) [of 0] D1 by simp
    define idx where "idx = map (\<lambda>k. nat (y k)) [0 ..< m]"
    have nth: "idx ! k = nat (y k)" if "k < m" for k
      using that by (simp add: idx_def)
    have len: "length idx = m" by (simp add: idx_def)
    have y0: "0 \<le> y k" if "k < m" for k
    proof (cases "k < D")
      case True
      then show ?thesis by (rule ind(3))
    next
      case False
      then have "k = D" using that mD by simp
      then show ?thesis using yD by simp
    qed
    have yn: "y k \<le> int n" if "k < m" for k
    proof (cases "k < D")
      case True
      then show ?thesis using ind(4) [of k] by simp
    next
      case False
      then have "k = D" using that mD by simp
      then show ?thesis using yD by simp
    qed
    have rng: "\<forall>i \<in> set idx. i < length items"
    proof
      fix i assume "i \<in> set idx"
      then obtain k where k: "k < m" "i = nat (y k)" by (auto simp: idx_def)
      then show "i < length items" using yn [OF k(1)] by (simp add: mn(4))
    qed
    have srt: "sorted_wrt (<) idx"
      unfolding sorted_wrt_iff_nth_Suc_transp [OF transp_less_nat]
    proof (intro allI impI)
      fix i assume "Suc i < length idx"
      then have i: "Suc i < m" "i < m" "i < D" using len mD by simp_all
      have "y i < y (Suc i)" using i(3) by (rule ind(5))
      then have "nat (y i) < nat (y (Suc i))" using y0 [OF i(2)] by simp
      then show "idx ! i < idx ! Suc i" by (simp add: nth i)
    qed
    have "linspace_int 0 (int n) m = map y [0 ..< m]"
      unfolding linspace_int_def mD y_def ..
    then have lin: "linspace_int 0 (int n) m = map int idx"
      using y0 by (simp add: idx_def)
    have res: "sample_evenly items max_count = Inr (map (\<lambda>i. items ! i) idx)"
      unfolding se lin using rng by (rule get_items_in_range)
    have last: "idx ! D = n" using yD by (simp add: nth mD)
    have first: "idx ! 0 = 0" using ind(2) [of 0] D1 by (simp add: nth mD)
    have formula: "int (idx ! k) = \<lfloor>f64 (f64 (real k * f64 (real n / real D)))\<rfloor>"
      if "k < D" for k
      using ind(2) [OF that] ind(3) [OF that] that by (simp add: nth mD)
    have n': "length items - Suc 0 = n" by (simp add: n_def)
    have m': "nat max_count = Suc D" using mD by (simp add: m_def)
    show ?thesis
      using res len srt rng last first formula
      by (intro exI [of _ idx]) (simp add: m' n' mD)
  qed
qed

theorem sample_evenly_floor_spaced_witness:
  "int (length [1, 2 :: nat]) \<le> 5 \<and> sample_evenly [1, 2 :: nat] 5 = Inr [1, 2] \<and>
   (0::int) \<le> 4 \<and> 4 < int (length [10, 11, 12, 13, 14 :: nat]) \<and>
   4 * int (length [10, 11, 12, 13, 14 :: nat]) \<le> 2 ^ 51 \<and>
   (\<exists>idx. sample_evenly [10, 11, 12, 13, 14 :: nat] 4 =
            Inr (map (\<lambda>i. [10, 11, 12, 13, 14] ! i) idx) \<and>
          length idx = 4 \<and> sorted_wrt (<) idx \<and> idx ! 0 = 0 \<and> idx ! 3 = 4)"
proof -
  have h1: "int (length [1, 2 :: nat]) \<le> 5" by simp
  have h2: "(0::int) \<le> 4 \<and> 4 < int (length [10, 11, 12, 13, 14 :: nat]) \<and>
      4 * int (length [10, 11, 12, 13, 14 :: nat]) \<le> 2 ^ 51" by simp
  from sample_evenly_floor_spaced [of "[1, 2 :: nat]" 5] h1
  have r1: "sample_evenly [1, 2 :: nat] 5 = Inr [1, 2]" by blast
  from sample_evenly_floor_spaced [of "[10, 11, 12, 13, 14 :: nat]" 4] h2
  obtain idx where "sample_evenly [10, 11, 12, 13, 14 :: nat] 4 =
        Inr (map (\<lambda>i. [10, 11, 12, 13, 14] ! i) idx)"
      "length idx = nat 4" "sorted_wrt (<) idx" "(1::int) \<le> 4 \<longrightarrow> idx ! 0 = 0"
      "(2::int) \<le> 4 \<longrightarrow> idx ! (nat 4 - 1) = length [10, 11, 12, 13, 14 :: nat] - 1"
    by blast
  then have "sample_evenly [10, 11, 12, 13, 14 :: nat] 4 =
        Inr (map (\<lambda>i. [10, 11, 12, 13, 14] ! i) idx) \<and>
      length idx = 4 \<and> sorted_wrt (<) idx \<and> idx ! 0 = 0 \<and> idx ! 3 = 4"
    by simp
  then show ?thesis using h1 h2 r1 by blast
qed

section \<open>Coordinate normalization: the claims\<close>

lemma for_each_total:
  "(\<And>x. x \<in> set xs \<Longrightarrow> f x = Inr (g x)) \<Longrightarrow> for_each f xs = Inr (map g xs)"
  by (induction xs) (simp_all add: bind_err_def)

lemma for_each_fails:
  "xs \<noteq> [] \<Longrightarrow> (\<And>x. f x = Inl e) \<Longrightarrow> for_each f xs = Inl e"
  by (cases xs) (simp_all add: bind_err_def)

lemma normalize_flow_line_ok:
  assumes "kind = NumpyFloat64 \<or> \<not> degenerate b"
  shows "normalize_flow_line kind (bounds_left b) (bounds_bottom b)
           (bounds_right b - bounds_left b) (bounds_top b - bounds_bottom b) fl =
         Inr (line_norm b fl)"
  using assms
  by (auto simp: normalize_flow_line_def float_div_def bind_err_def line_norm_def x_norm_def
      y_norm_def degenerate_def)

lemma normalize_start_point_ok:
  assumes "kind = NumpyFloat64 \<or> \<not> degenerate b"
  shows "normalize_start_point kind (bounds_left b) (bounds_bottom b)
           (bounds_right b - bounds_left b) (bounds_top b - bounds_bottom b) p =
         Inr (point_norm b p)"
  using assms
  by (auto simp: normalize_start_point_def float_div_def bind_err_def point_norm_def x_norm_def
      y_norm_def degenerate_def)

lemma normalize_primitives_ok:
  assumes "kind = NumpyFloat64 \<or> \<not> degenerate b"
  shows "normalize_primitives kind b flow_lines start_points =
           Inr (map (line_norm b) flow_lines, map (point_norm b) start_points)"
proof -
  have "for_each (normalize_flow_line kind (bounds_left b) (bounds_bottom b)
          (bounds_right b - bounds_left b) (bounds_top b - bounds_bottom b)) flow_lines =
        Inr (map (line_norm b) flow_lines)"
    by (rule for_each_total) (rule normalize_flow_line_ok [OF assms])
  moreover have "for_each (normalize_start_point kind (bounds_left b) (bounds_bottom b)
          (bounds_right b - bounds_left b) (bounds_top b - bounds_bottom b)) start_points =
        Inr (map (point_norm b) start_points)"
    by (rule for_each_total) (rule normalize_start_point_ok [OF assms])
  ultimately show ?thesis by (simp add: normalize_primitives_def bind_err_def)
qed

lemma normalize_flow_line_degenerate:
  "width = 0 \<or> height = 0 \<Longrightarrow>
     normalize_flow_line PythonFloat minx miny width height fl = Inl ZeroDivisionError"
  by (auto simp: normalize_flow_line_def float_div_def bind_err_def)

lemma normalize_start_point_degenerate:
  "width = 0 \<or> height = 0 \<Longrightarrow>
     normalize_start_point PythonFloat minx miny width height p = Inl ZeroDivisionError"
  by (auto simp: normalize_start_point_def float_div_def bind_err_def)

lemma normalize_primitives_python_degenerate:
  assumes "degenerate b"
  shows "normalize_primitives PythonFloat b flow_lines start_points =
           (if flow_lines = [] \<and> start_points = [] then Inr ([], []) else Inl ZeroDivisionError)"
proof -
  have d: "bounds_right b - bounds_left b = 0 \<or> bounds_top b - bounds_bottom b = 0"
    using assms by (simp add: degenerate_def)
  show ?thesis
  proof (cases "flow_lines = []")
    case False
    then have "for_each (normalize_flow_line PythonFloat (bounds_left b) (bounds_bottom b)
          (bounds_right b - bounds_left b) (bounds_top b - bounds_bottom b)) flow_lines =
        Inl ZeroDivisionError"
      by (rule for_each_fails) (rule normalize_flow_line_degenerate [OF d])
    then show ?thesis using False by (simp add: normalize_primitives_def bind_err_def)
  next
    case True
    show ?thesis
    proof (cases "start_points = []")
      case True
      with \<open>flow_lines = []\<close> show ?thesis by (simp add: normalize_primitives_def bind_err_def)
    next
      case False
      then have "for_each (normalize_start_point PythonFloat (bounds_left b) (bounds_bottom b)
          (bounds_right b - bounds_left b) (bounds_top b - bounds_bottom b)) start_points =
        Inl ZeroDivisionError"
        by (rule for_each_fails) (rule normalize_start_point_degenerate [OF d])
      then show ?thesis using False True by (simp add: normalize_primitives_def bind_err_def)
    qed
  qed
qed

lemma one_minus_finite [simp]: "is_finite (one_minus v) = is_finite v"
  by (cases v) simp_all

lemma np_div_zero: "\<not> is_finite (np_div x 0)"
  by (simp add: np_div_def)

text \<open>
  C8. For a bounding box whose width and height are not zero (the other boxes are the
  subject of C6) and for either kind of scalar, the normalization step succeeds and gives
  every flow line and every start point the coordinates
  \<open>x_norm = (x - minx) / (maxx - minx)\<close> and \<open>y_norm = 1 - (y - miny) / (maxy - miny)\<close>, keeping
  the original ones. For a point inside the box both lie between 0 and 1; the bottom-left
  corner goes to (0, 1) and the top-right corner to (1, 0).
\<close>

theorem normalization_unit_box:
  assumes nd: "\<not> degenerate b"
  shows "normalize_primitives kind b flow_lines start_points =
           Inr (map (line_norm b) flow_lines, map (point_norm b) start_points) \<and>
         x_norm b x = Finite ((x - bounds_left b) / (bounds_right b - bounds_left b)) \<and>
         y_norm b y = Finite (1 - (y - bounds_bottom b) / (bounds_top b - bounds_bottom b)) \<and>
         (bounds_left b \<le> x \<and> x \<le> bounds_right b \<longrightarrow>
            0 \<le> (x - bounds_left b) / (bounds_right b - bounds_left b) \<and>
            (x - bounds_left b) / (bounds_right b - bounds_left b) \<le> 1) \<and>
         (bounds_bottom b \<le> y \<and> y \<le> bounds_top b \<longrightarrow>
            0 \<le> 1 - (y - bounds_bottom b) / (bounds_top b - bounds_bottom b) \<and>
            1 - (y - bounds_bottom b) / (bounds_top b - bounds_bottom b) \<le> 1) \<and>
         x_norm b (bounds_left b) = Finite 0 \<and> y_norm b (bounds_bottom b) = Finite 1 \<and>
         x_norm b (bounds_right b) = Finite 1 \<and> y_norm b (bounds_top b) = Finite 0"
proof -
  have w: "bounds_right b - bounds_left b \<noteq> 0" and h: "bounds_top b - bounds_bottom b \<noteq> 0"
    using nd by (simp_all add: degenerate_def)
  have 1: "normalize_primitives kind b flow_lines start_points =
      Inr (map (line_norm b) flow_lines, map (point_norm b) start_points)"
    by (rule normalize_primitives_ok) (simp add: nd)
  have 2: "0 \<le> (x - bounds_left b) / (bounds_right b - bounds_left b) \<and>
           (x - bounds_left b) / (bounds_right b - bounds_left b) \<le> 1"
    if "bounds_left b \<le> x \<and> x \<le> bounds_right b"
  proof -
    have "0 < bounds_right b - bounds_left b" using that w by linarith
    then show ?thesis using that by simp
  qed
  have 3: "0 \<le> 1 - (y - bounds_bottom b) / (bounds_top b - bounds_bottom b) \<and>
           1 - (y - bounds_bottom b) / (bounds_top b - bounds_bottom b) \<le> 1"
    if "bounds_bottom b \<le> y \<and> y \<le> bounds_top b"
  proof -
    have "0 < bounds_top b - bounds_bottom b" using that h by linarith
    then show ?thesis using that by simp
  qed
  have 4: "x_norm b x = Finite ((x - bounds_left b) / (bounds_right b - bounds_left b))"
    "y_norm b y = Finite (1 - (y - bounds_bottom b) / (bounds_top b - bounds_bottom b))"
    "x_norm b (bounds_left b) = Finite 0" "y_norm b (bounds_bottom b) = Finite 1"
    "x_norm b (bounds_right b) = Finite 1" "y_norm b (bounds_top b) = Finite 0"
    using w h by (simp_all add: x_norm_def y_norm_def np_div_def)
  show ?thesis using 1 2 3 4 by blast
qed

theorem normalization_unit_box_witness:
  "\<not> degenerate box_4_2 \<and>
   normalize_primitives PythonFloat box_4_2 [] [\<lparr>position = (1, 2), weight = 3\<rparr>] =
     Inr ([], [\<lparr>position_orig = (1, 2), position_norm = (Finite (1 / 4), Finite 0),
                point_weight = 3\<rparr>]) \<and>
   x_norm box_4_2 0 = Finite 0 \<and> y_norm box_4_2 0 = Finite 1 \<and>
   x_norm box_4_2 4 = Finite 1 \<and> y_norm box_4_2 2 = Finite 0"
proof -
  have nd: "\<not> degenerate box_4_2" by (simp add: degenerate_def box_4_2_def)
  show ?thesis
    using nd normalization_unit_box [OF nd, of PythonFloat "[]"
        "[\<lparr>position = (1, 2), weight = 3\<rparr>]" 1 2]
    by (simp add: point_norm_def box_4_2_def)
qed

text \<open>
  C6, as the claim states it: a degenerate bounding box is caught by a guard that reports a
  configuration error, and no NaN reaches the normalized coordinates. The step has no such
  guard. With a box of width 0 and one start point, the division itself fails with
  \<open>ZeroDivisionError\<close> when the coordinates are Python floats; when they are numpy scalars
  the step completes and the start point gets the coordinate NaN.
\<close>

theorem degenerate_box_unguarded:
  "degenerate line_box \<and>
   normalize_primitives PythonFloat line_box [] [\<lparr>position = (0, 5), weight = 1\<rparr>] =
     Inl ZeroDivisionError \<and>
   normalize_primitives NumpyFloat64 line_box [] [\<lparr>position = (0, 5), weight = 1\<rparr>] =
     Inr ([], [\<lparr>position_orig = (0, 5), position_norm = (NaN, Finite (1 / 2)),
                point_weight = 1\<rparr>])"
  by (simp add: degenerate_def line_box_def normalize_primitives_def bind_err_def
      normalize_start_point_def float_div_def np_div_def)

text \<open>
  C6, amended. When the width or the height of the bounding box is zero, no check of the
  box precedes the divisions. If the coordinates are Python floats, the step fails at its
  first division with \<open>ZeroDivisionError\<close> (and does nothing when there is neither a flow
  line nor a start point). If they are numpy scalars, the step completes: every flow line
  and every start point gets the normalized coordinates of the formulas, which are an
  infinity or NaN, never a finite number, along each dimension of zero extent.
\<close>

theorem degenerate_box_division_error:
  assumes "degenerate b"
  shows "normalize_primitives PythonFloat b flow_lines start_points =
           (if flow_lines = [] \<and> start_points = [] then Inr ([], []) else Inl ZeroDivisionError) \<and>
         normalize_primitives NumpyFloat64 b flow_lines start_points =
           Inr (map (line_norm b) flow_lines, map (point_norm b) start_points) \<and>
         (bounds_right b - bounds_left b = 0 \<longrightarrow> \<not> is_finite (x_norm b x)) \<and>
         (bounds_top b - bounds_bottom b = 0 \<longrightarrow> \<not> is_finite (y_norm b y))"
proof -
  have 1: "normalize_primitives PythonFloat b flow_lines start_points =
      (if flow_lines = [] \<and> start_points = [] then Inr ([], []) else Inl ZeroDivisionError)"
    using assms by (rule normalize_primitives_python_degenerate)
  have 2: "normalize_primitives NumpyFloat64 b flow_lines start_points =
      Inr (map (line_norm b) flow_lines, map (point_norm b) start_points)"
    by (rule normalize_primitives_ok) simp
  have 3: "bounds_right b - bounds_left b = 0 \<longrightarrow> \<not> is_finite (x_norm b x)"
    "bounds_top b - bounds_bottom b = 0 \<longrightarrow> \<not> is_finite (y_norm b y)"
    by (simp_all add: x_norm_def y_norm_def np_div_zero)
  show ?thesis using 1 2 3 by blast
qed

theorem degenerate_box_division_error_witness:
  "degenerate line_box \<and> bounds_right line_box - bounds_left line_box = 0 \<and>
   \<not> is_finite (x_norm line_box 0) \<and>
   normalize_primitives PythonFloat line_box [] [\<lparr>position = (0, 5), weight = 1\<rparr>] =
     Inl ZeroDivisionError \<and>
   normalize_primitives NumpyFloat64 line_box [] [\<lparr>position = (0, 5), weight = 1\<rparr>] =
     Inr ([], [point_norm line_box \<lparr>position = (0, 5), weight = 1\<rparr>])"
proof -
  have d: "degenerate line_box" by (simp add: degenerate_def line_box_def)
  show ?thesis
    using d degenerate_box_division_error [OF d, of "[]" "[\<lparr>position = (0, 5), weight = 1\<rparr>]" 0]
    by (simp add: line_box_def)
qed

end
